theory Spec2Isabelle
  imports Main "HOL-Library.Word"
begin

unbundle bit_operations_syntax

section \<open>The SH1107 driver: data model\<close>

text \<open>
  A shallow embedding of \<^verbatim>\<open>sh1107_driver.py\<close>. Python integers are \<open>int\<close>, the
  elements of a \<^verbatim>\<open>bytearray\<close> or \<^verbatim>\<open>bytes\<close> value are 8-bit words, every exception
  the driver can meet is a value of \<open>error\<close>, and every method of the class is a function
  from the driver state to an outcome and the updated state.
\<close>

type_synonym byte = "8 word"

datatype error =
    OSError | ValueError | IndexError | AttributeError | ZeroDivisionError | OverflowError

text \<open>
  Everything the driver does to the outside world, in the order it happens: successful and
  failed bus writes (address and bytes) and the blocking delays.
\<close>

datatype event =
    Write int "byte list"
  | WriteFailed int "byte list"
  | SleepUs nat
  | SleepMs nat

text \<open>
  Modelled from the spec: the bus transport is an external collaborator that "issues raw
  addressed writes, may fail with a transient error". The bus carries a schedule with one
  entry per future \<^verbatim>\<open>writeto\<close> call (\<open>True\<close>: that call raises \<^verbatim>\<open>OSError\<close>); once the
  schedule is used up every call succeeds. The trace records what happened.
\<close>

record bus =
  schedule :: "bool list"
  trace :: "event list"

record sh1107 =
  i2c :: bus
  addr :: int
  external_vcc :: bool
  rotate :: bool
  physical_width :: nat
  physical_height :: nat
  width :: nat
  height :: nat
  pages :: nat
  buffer :: "byte list"
  physical_buffer :: "byte list option"

type_synonym 's action = "'s \<Rightarrow> (error + unit) \<times> 's"

section \<open>Control flow\<close>

text \<open>Two statements in sequence: an exception in the first skips the second.\<close>

definition seq :: "'s action \<Rightarrow> 's action \<Rightarrow> 's action" where
  "seq f g s = (case f s of (Inl e, s') \<Rightarrow> (Inl e, s') | (Inr u, s') \<Rightarrow> g s')"

text \<open>A \<^verbatim>\<open>for\<close> loop over a finite sequence: an exception in the body leaves the loop.\<close>

fun for_each :: "'a list \<Rightarrow> ('a \<Rightarrow> 's action) \<Rightarrow> 's action" where
  "for_each [] body s = (Inr (), s)"
| "for_each (x # xs) body s =
     (case body x s of (Inl e, s') \<Rightarrow> (Inl e, s') | (Inr u, s') \<Rightarrow> for_each xs body s')"

text \<open>\<^verbatim>\<open>try: f except OSError: h\<close>; any other exception passes through.\<close>

definition try_except_OSError :: "'s action \<Rightarrow> 's action \<Rightarrow> 's action" where
  "try_except_OSError f h s =
     (case f s of
        (Inl OSError, s') \<Rightarrow> h s'
      | (Inl e, s') \<Rightarrow> (Inl e, s')
      | (Inr u, s') \<Rightarrow> (Inr u, s'))"

text \<open>\<^verbatim>\<open>range(start, stop, step)\<close> for a positive step, as the list of its values.\<close>

function range_step :: "nat \<Rightarrow> nat \<Rightarrow> nat \<Rightarrow> nat list" where
  "range_step start stop step =
     (if start < stop \<and> 0 < step then start # range_step (start + step) stop step else [])"
  by pat_completeness auto
termination
  by (relation "measure (\<lambda>(start, stop, step). stop - start)") auto

section \<open>Bus transport and delays\<close>

definition writeto :: "int \<Rightarrow> byte list \<Rightarrow> bus action" where
  "writeto a bs b =
     (case schedule b of
        [] \<Rightarrow> (Inr (), b\<lparr>trace := trace b @ [Write a bs]\<rparr>)
      | fails # rest \<Rightarrow>
          if fails
          then (Inl OSError, b\<lparr>schedule := rest, trace := trace b @ [WriteFailed a bs]\<rparr>)
          else (Inr (), b\<lparr>schedule := rest, trace := trace b @ [Write a bs]\<rparr>))"

definition on_bus :: "bus action \<Rightarrow> sh1107 action" where
  "on_bus f s = (case f (i2c s) of (r, b') \<Rightarrow> (r, s\<lparr>i2c := b'\<rparr>))"

definition sleep_us :: "nat \<Rightarrow> sh1107 action" where
  "sleep_us n s = (Inr (), s\<lparr>i2c := (i2c s)\<lparr>trace := trace (i2c s) @ [SleepUs n]\<rparr>\<rparr>)"

definition sleep_ms :: "nat \<Rightarrow> sh1107 action" where
  "sleep_ms n s = (Inr (), s\<lparr>i2c := (i2c s)\<lparr>trace := trace (i2c s) @ [SleepMs n]\<rparr>\<rparr>)"

section \<open>Commands and data\<close>

definition SET_CONTRAST :: int where "SET_CONTRAST = 0x81"
definition SET_ENTIRE_ON :: int where "SET_ENTIRE_ON = 0xA4"
definition SET_NORM_INV :: int where "SET_NORM_INV = 0xA6"
definition SET_DISP :: int where "SET_DISP = 0xAE"
definition SET_SCAN_DIR :: int where "SET_SCAN_DIR = 0xC0"
definition SET_SEG_REMAP :: int where "SET_SEG_REMAP = 0xA0"
definition SET_MUX_RATIO :: int where "SET_MUX_RATIO = 0xA8"
definition SET_DISP_OFFSET :: int where "SET_DISP_OFFSET = 0xD3"
definition SET_DISP_START_LINE :: int where "SET_DISP_START_LINE = 0xDC"
definition SET_DISP_CLK_DIV :: int where "SET_DISP_CLK_DIV = 0xD5"
definition SET_PRECHARGE :: int where "SET_PRECHARGE = 0xD9"
definition SET_VCOM_DESEL :: int where "SET_VCOM_DESEL = 0xDB"
definition SET_PAGE_ADDR :: int where "SET_PAGE_ADDR = 0xB0"
definition SET_COL_ADDR_LOW :: int where "SET_COL_ADDR_LOW = 0x00"
definition SET_COL_ADDR_HIGH :: int where "SET_COL_ADDR_HIGH = 0x10"
definition SET_MEM_ADDR_MODE :: int where "SET_MEM_ADDR_MODE = 0x20"

text \<open>
  \<^verbatim>\<open>write_cmd\<close>: \<^verbatim>\<open>bytes([0x80, cmd])\<close> raises \<^verbatim>\<open>ValueError\<close> for a value outside
  \<open>0..255\<close>, before anything reaches the bus.
\<close>

definition write_cmd :: "int \<Rightarrow> sh1107 action" where
  "write_cmd cmd s =
     (if 0 \<le> cmd \<and> cmd < 256
      then on_bus (writeto (addr s) [0x80, word_of_int cmd]) s
      else (Inl ValueError, s))"

text \<open>\<^verbatim>\<open>write_data\<close>: one bus write and a 50 microsecond delay per chunk of 16 bytes.\<close>

definition chunk_size :: nat where "chunk_size = 16"

definition write_data :: "byte list \<Rightarrow> sh1107 action" where
  "write_data data =
     for_each (range_step 0 (length data) chunk_size)
       (\<lambda>i s. seq (on_bus (writeto (addr s) ([0x40] @ take chunk_size (drop i data))))
                   (sleep_us 50) s)"

section \<open>Rotation\<close>

text \<open>
  \<^verbatim>\<open>_rotate_buffer\<close>. The loops work on the physical buffer; an index outside a buffer
  raises \<^verbatim>\<open>IndexError\<close>, and a driver without a physical buffer has no such attribute.
\<close>

definition rotate_bit :: "byte \<Rightarrow> nat \<Rightarrow> nat \<Rightarrow> nat \<Rightarrow> (byte list) action" where
  "rotate_bit src_byte src_page src_col bit_no phys =
     (if src_byte AND push_bit bit_no 1 \<noteq> 0
      then (let src_y = src_page * 8 + bit_no;
                src_x = src_col;
                dst_x = src_y;
                dst_y = 127 - int src_x;
                dst_page = dst_y div 8;
                dst_bit = dst_y mod 8;
                idx = dst_page * 64 + int dst_x
            in if 0 \<le> idx \<and> idx < int (length phys)
               then (Inr (), phys[nat idx := phys ! nat idx OR push_bit (nat dst_bit) 1])
               else (Inl IndexError, phys))
      else (Inr (), phys))"

definition rotate_col :: "byte list \<Rightarrow> nat \<Rightarrow> nat \<Rightarrow> (byte list) action" where
  "rotate_col buf src_page src_col phys =
     (if src_page * 128 + src_col < length buf
      then (let src_byte = buf ! (src_page * 128 + src_col)
            in if src_byte \<noteq> 0
               then for_each [0..<8] (rotate_bit src_byte src_page src_col) phys
               else (Inr (), phys))
      else (Inl IndexError, phys))"

definition rotate_loops :: "byte list \<Rightarrow> (byte list) action" where
  "rotate_loops buf =
     for_each [0..<8] (\<lambda>src_page. for_each [0..<128] (rotate_col buf src_page))"

definition rotate_buffer :: "sh1107 action" where
  "rotate_buffer s =
     (case physical_buffer s of
        None \<Rightarrow> (Inl AttributeError, s)
      | Some pb \<Rightarrow>
          (case rotate_loops (buffer s) (replicate (length pb) 0) of
             (r, pb') \<Rightarrow> (r, s\<lparr>physical_buffer := Some pb'\<rparr>)))"

section \<open>Full-frame transfer\<close>

text \<open>The three address commands and the data write of one page.\<close>

definition send_page :: "byte list \<Rightarrow> nat \<Rightarrow> sh1107 action" where
  "send_page buffer_to_send page =
     seq (write_cmd (SET_PAGE_ADDR OR int page))
    (seq (write_cmd (SET_COL_ADDR_LOW OR 0))
    (seq (write_cmd (SET_COL_ADDR_HIGH OR 0))
         (write_data (take 64 (drop (page * 64) buffer_to_send)))))"

definition show_page :: "byte list \<Rightarrow> nat \<Rightarrow> sh1107 action" where
  "show_page buffer_to_send page =
     try_except_OSError
       (seq (send_page buffer_to_send page) (sleep_us 100))
       (seq (sleep_ms 10) (send_page buffer_to_send page))"

definition show_pages :: "byte list \<Rightarrow> sh1107 action" where
  "show_pages buffer_to_send = for_each [0..<16] (show_page buffer_to_send)"

definition "show" :: "sh1107 action" where
  "show s =
     (if rotate s
      then (case rotate_buffer s of
              (Inl e, s') \<Rightarrow> (Inl e, s')
            | (Inr u, s') \<Rightarrow>
                (case physical_buffer s' of
                   None \<Rightarrow> (Inl AttributeError, s')
                 | Some pb \<Rightarrow> show_pages pb s'))
      else show_pages (buffer s) s)"

section \<open>Initialization and simple commands\<close>

definition init_commands :: "int list" where
  "init_commands =
     [SET_DISP OR 0x00,
      SET_DISP_START_LINE, 0x00,
      SET_CONTRAST, 0x2F,
      SET_MEM_ADDR_MODE,
      SET_SEG_REMAP OR 0x00,
      SET_SCAN_DIR OR 0x00,
      SET_MUX_RATIO, 0x7F,
      SET_DISP_OFFSET, 0x60,
      SET_DISP_CLK_DIV, 0x51,
      SET_PRECHARGE, 0x22,
      SET_VCOM_DESEL, 0x35,
      SET_ENTIRE_ON,
      SET_NORM_INV,
      SET_DISP OR 0x01]"

definition contrast :: "int \<Rightarrow> sh1107 action" where
  "contrast v = seq (write_cmd SET_CONTRAST) (write_cmd v)"

definition invert :: "int \<Rightarrow> sh1107 action" where
  "invert i = seq (write_cmd (SET_NORM_INV OR (i AND 1))) (sleep_ms 10)"

definition poweroff :: "sh1107 action" where
  "poweroff = write_cmd (SET_DISP OR 0x00)"

definition poweron :: "sh1107 action" where
  "poweron = write_cmd (SET_DISP OR 0x01)"

section \<open>The pixel primitive surface\<close>

text \<open>
  The calls a drawing method makes on the primitive surface it inherits
  (\<^verbatim>\<open>self.pixel\<close>, \<^verbatim>\<open>self.hline\<close>, ...), with their arguments, the colour last.
\<close>

datatype prim =
    Pixel int int int
  | HLine int int int int
  | VLine int int int int
  | FillRect int int int int int
  | Fill int
  | Line int int int int int

text \<open>
  Modelled from the spec: the primitive surface is an external collaborator; its contract
  is that it works on the logical buffer only, that the buffer is bit-packed in pages of 8
  rows with bit 0 the topmost row of a page, and that "coordinates outside
  \<open>[0,width)\<times>[0,height)\<close> are silently clipped/ignored, never an error".
\<close>

definition fb_setpixel :: "int \<Rightarrow> int \<Rightarrow> int \<Rightarrow> sh1107 \<Rightarrow> sh1107" where
  "fb_setpixel x y c s =
     (if 0 \<le> x \<and> x < int (width s) \<and> 0 \<le> y \<and> y < int (height s)
      then (let idx = nat (y div 8) * width s + nat x;
                m = (push_bit (nat (y mod 8)) 1 :: byte);
                old = buffer s ! idx
            in s\<lparr>buffer := (buffer s)[idx := (if c \<noteq> 0 then old OR m else old AND NOT m)]\<rparr>)
      else s)"

definition fb_getpixel :: "sh1107 \<Rightarrow> int \<Rightarrow> int \<Rightarrow> bool" where
  "fb_getpixel s x y =
     (0 \<le> x \<and> x < int (width s) \<and> 0 \<le> y \<and> y < int (height s) \<and>
      nat (y div 8) * width s + nat x < length (buffer s) \<and>
      bit (buffer s ! (nat (y div 8) * width s + nat x)) (nat (y mod 8)))"

definition rect_points :: "int \<Rightarrow> int \<Rightarrow> int \<Rightarrow> int \<Rightarrow> (int \<times> int) list" where
  "rect_points x y w h =
     concat (map (\<lambda>py. map (\<lambda>px. (px, py)) [x..x + w - 1]) [y..y + h - 1])"

definition fb_fill_rect :: "int \<Rightarrow> int \<Rightarrow> int \<Rightarrow> int \<Rightarrow> int \<Rightarrow> sh1107 \<Rightarrow> sh1107" where
  "fb_fill_rect x y w h c s = fold (\<lambda>(px, py). fb_setpixel px py c) (rect_points x y w h) s"

definition fb_fill :: "int \<Rightarrow> sh1107 \<Rightarrow> sh1107" where
  "fb_fill c s = s\<lparr>buffer := map (\<lambda>b. if c \<noteq> 0 then 0xFF else 0) (buffer s)\<rparr>"

text \<open>
  The pixels of a line segment are computed outside the driver; \<open>lp\<close> stands for that
  computation.
\<close>

type_synonym line_points = "int \<Rightarrow> int \<Rightarrow> int \<Rightarrow> int \<Rightarrow> (int \<times> int) list"

fun apply_prim :: "line_points \<Rightarrow> prim \<Rightarrow> sh1107 \<Rightarrow> sh1107" where
  "apply_prim lp (Pixel x y c) s = fb_setpixel x y c s"
| "apply_prim lp (HLine x y w c) s = fb_fill_rect x y w 1 c s"
| "apply_prim lp (VLine x y h c) s = fb_fill_rect x y 1 h c s"
| "apply_prim lp (FillRect x y w h c) s = fb_fill_rect x y w h c s"
| "apply_prim lp (Fill c) s = fb_fill c s"
| "apply_prim lp (Line x0 y0 x1 y1 c) s = fold (\<lambda>(px, py). fb_setpixel px py c) (lp x0 y0 x1 y1) s"

definition draw :: "line_points \<Rightarrow> prim list \<Rightarrow> sh1107 \<Rightarrow> sh1107" where
  "draw lp ps s = fold (apply_prim lp) ps s"

text \<open>The pixels a call on the primitive surface asks for, before clipping.\<close>

fun prim_pixels :: "prim \<Rightarrow> (int \<times> int) set" where
  "prim_pixels (Pixel x y c) = {(x, y)}"
| "prim_pixels (HLine x y w c) = {(px, py). py = y \<and> x \<le> px \<and> px < x + w}"
| "prim_pixels (VLine x y h c) = {(px, py). px = x \<and> y \<le> py \<and> py < y + h}"
| "prim_pixels (FillRect x y w h c) = {(px, py). x \<le> px \<and> px < x + w \<and> y \<le> py \<and> py < y + h}"
| "prim_pixels (Fill c) = UNIV"
| "prim_pixels (Line x0 y0 x1 y1 c) = {}"

definition plotted :: "prim list \<Rightarrow> (int \<times> int) set" where
  "plotted ps = (\<Union>p \<in> set ps. prim_pixels p)"

section \<open>Shape rasterizer\<close>

subsection \<open>Circle\<close>

text \<open>The body of the filled-circle loop after its two spans: the update of \<open>(x, y, err)\<close>.\<close>

definition circle_fill_step :: "int \<Rightarrow> int \<Rightarrow> int \<Rightarrow> int \<times> int \<times> int" where
  "circle_fill_step x y err =
     (let err = err + (1 + 2 * y);
          y = y + 1
      in if 2 * err > 2 * x + 1
         then (let x = x - 1 in (x, y, err + (1 - 2 * x)))
         else (x, y, err))"

function circle_fill_loop :: "int \<Rightarrow> int \<Rightarrow> int \<Rightarrow> int \<Rightarrow> int \<Rightarrow> int \<Rightarrow> int \<Rightarrow> prim list" where
  "circle_fill_loop x0 y0 r c x y err =
     (if y \<le> r
      then [HLine (x0 - x) (y0 + y) (2 * x + 1) c] @
           (if y \<noteq> 0 then [HLine (x0 - x) (y0 - y) (2 * x + 1) c] else []) @
           (case circle_fill_step x y err of
              (x', y', err') \<Rightarrow> circle_fill_loop x0 y0 r c x' y' err')
      else [])"
  by pat_completeness auto
termination
  by (relation "measure (\<lambda>(x0, y0, r, c, x, y, err). nat (r - y + 1))")
     (auto simp: circle_fill_step_def Let_def split: if_splits)

text \<open>The eight symmetric pixels of one step of the outline, in the order of the source.\<close>

definition circle_points :: "int \<Rightarrow> int \<Rightarrow> int \<Rightarrow> int \<Rightarrow> int \<Rightarrow> prim list" where
  "circle_points x0 y0 c x y =
     [Pixel (x0 + x) (y0 + y) c,
      Pixel (x0 + y) (y0 + x) c,
      Pixel (x0 - y) (y0 + x) c,
      Pixel (x0 - x) (y0 + y) c,
      Pixel (x0 - x) (y0 - y) c,
      Pixel (x0 - y) (y0 - x) c,
      Pixel (x0 + y) (y0 - x) c,
      Pixel (x0 + x) (y0 - y) c]"

text \<open>The two consecutive \<^verbatim>\<open>if\<close> statements that end the body of the outline loop.\<close>

definition circle_outline_step :: "int \<Rightarrow> int \<Rightarrow> int \<Rightarrow> int \<times> int \<times> int" where
  "circle_outline_step x y err =
     (let (y, err) = (if err \<le> 0 then (let y = y + 1 in (y, err + (2 * y + 1))) else (y, err))
      in if err > 0
         then (let x = x - 1 in (x, y, err - (2 * x + 1)))
         else (x, y, err))"

function circle_outline_loop :: "int \<Rightarrow> int \<Rightarrow> int \<Rightarrow> int \<Rightarrow> int \<Rightarrow> int \<Rightarrow> prim list" where
  "circle_outline_loop x0 y0 c x y err =
     (if x \<ge> y
      then circle_points x0 y0 c x y @
           (case circle_outline_step x y err of
              (x', y', err') \<Rightarrow> circle_outline_loop x0 y0 c x' y' err')
      else [])"
  by pat_completeness auto
termination
  by (relation "measure (\<lambda>(x0, y0, c, x, y, err). nat (x - y + 1))")
     (auto simp: circle_outline_step_def Let_def split: if_splits)

definition circle :: "int \<Rightarrow> int \<Rightarrow> int \<Rightarrow> int \<Rightarrow> bool \<Rightarrow> prim list" where
  "circle x0 y0 r c f =
     (if f then circle_fill_loop x0 y0 r c r 0 0 else circle_outline_loop x0 y0 c r 0 0)"

text \<open>
  The outline loop once more, with a bound on the number of iterations: \<open>None\<close> when the
  bound is reached while the loop condition still holds.
\<close>

fun circle_outline_fuel :: "nat \<Rightarrow> int \<Rightarrow> int \<Rightarrow> int \<Rightarrow> int \<Rightarrow> int \<Rightarrow> int \<Rightarrow> prim list option" where
  "circle_outline_fuel 0 x0 y0 c x y err = (if x \<ge> y then None else Some [])"
| "circle_outline_fuel (Suc n) x0 y0 c x y err =
     (if x \<ge> y
      then (case circle_outline_step x y err of
              (x', y', err') \<Rightarrow>
                map_option (\<lambda>ps. circle_points x0 y0 c x y @ ps)
                  (circle_outline_fuel n x0 y0 c x' y' err'))
      else Some [])"

subsection \<open>Triangle\<close>

text \<open>One scanline of the filled triangle, for vertices already sorted by \<open>y\<close>.\<close>

definition triangle_row :: "int \<Rightarrow> int \<Rightarrow> int \<Rightarrow> int \<Rightarrow> int \<Rightarrow> int \<Rightarrow> int \<Rightarrow> int \<Rightarrow> prim" where
  "triangle_row x0 y0 x1 y1 x2 y2 c y =
     (let (xa, xb) =
            (if y \<le> y1
             then (if y1 \<noteq> y0 then x0 + (x1 - x0) * (y - y0) div (y1 - y0) else x0,
                   if y2 \<noteq> y0 then x0 + (x2 - x0) * (y - y0) div (y2 - y0) else x0)
             else (if y2 \<noteq> y1 then x1 + (x2 - x1) * (y - y1) div (y2 - y1) else x1,
                   if y2 \<noteq> y0 then x0 + (x2 - x0) * (y - y0) div (y2 - y0) else x0));
          (xa, xb) = (if xa > xb then (xb, xa) else (xa, xb))
      in HLine xa y (xb - xa + 1) c)"

definition triangle :: "int \<Rightarrow> int \<Rightarrow> int \<Rightarrow> int \<Rightarrow> int \<Rightarrow> int \<Rightarrow> int \<Rightarrow> bool \<Rightarrow> prim list" where
  "triangle x0 y0 x1 y1 x2 y2 c f =
     (if f
      then (let (x0, y0, x1, y1) = (if y0 > y1 then (x1, y1, x0, y0) else (x0, y0, x1, y1));
                (x1, y1, x2, y2) = (if y1 > y2 then (x2, y2, x1, y1) else (x1, y1, x2, y2));
                (x0, y0, x1, y1) = (if y0 > y1 then (x1, y1, x0, y0) else (x0, y0, x1, y1))
            in map (triangle_row x0 y0 x1 y1 x2 y2 c) [y0..y2])
      else [Line x0 y0 x1 y1 c, Line x1 y1 x2 y2 c, Line x2 y2 x0 y0 c])"

subsection \<open>Ellipse\<close>

text \<open>
  A drawing method that can raise: the calls it made on the primitive surface and how it
  ended.
\<close>

type_synonym drawn = "prim list \<times> (error + unit)"

text \<open>
  Floating-point arithmetic is not modelled; \<open>fl\<close> stands for it, over any type \<open>'f\<close> of
  floating-point values. Each field is the value of one floating-point expression of the
  source, or the exception it raises (\<^verbatim>\<open>OverflowError\<close> when an integer is too large to
  convert):
  \<^item> \<open>half_width fl a b y\<close> is \<^verbatim>\<open>int(a * ((1 - (y*y)/(b*b)) ** 0.5))\<close> for a divisor
    \<open>b * b\<close> other than zero;
  \<^item> \<open>region2_start fl b2 x a2 y\<close> is
    \<^verbatim>\<open>b2 * (x + 0.5) * (x + 0.5) + a2 * (y - 1) * (y - 1) - a2 * b2\<close>;
  \<^item> \<open>add_int fl d n\<close> is \<^verbatim>\<open>d + n\<close> for a floating-point \<open>d\<close> and an integer \<open>n\<close>;
  \<^item> \<open>positive fl d\<close> is \<^verbatim>\<open>d > 0\<close>.
\<close>

record 'f floats =
  half_width :: "int \<Rightarrow> int \<Rightarrow> int \<Rightarrow> error + int"
  region2_start :: "int \<Rightarrow> int \<Rightarrow> int \<Rightarrow> int \<Rightarrow> error + 'f"
  add_int :: "'f \<Rightarrow> int \<Rightarrow> error + 'f"
  positive :: "'f \<Rightarrow> bool"

text \<open>
  The filled ellipse. In the half-width of a row the true division comes first, and it
  raises \<^verbatim>\<open>ZeroDivisionError\<close> when \<open>b * b\<close> is zero.
\<close>

fun ellipse_fill_loop :: "'f floats \<Rightarrow> int \<Rightarrow> int \<Rightarrow> int \<Rightarrow> int \<Rightarrow> int \<Rightarrow> int list \<Rightarrow> drawn" where
  "ellipse_fill_loop fl x0 y0 a b c [] = ([], Inr ())"
| "ellipse_fill_loop fl x0 y0 a b c (y # ys) =
     (if b * b = 0 then ([], Inl ZeroDivisionError)
      else (case half_width fl a b y of
              Inl e \<Rightarrow> ([], Inl e)
            | Inr x \<Rightarrow>
                (case ellipse_fill_loop fl x0 y0 a b c ys of
                   (ps, r) \<Rightarrow> (HLine (x0 - x) (y0 + y) (2 * x + 1) c # ps, r))))"

definition ellipse_points :: "int \<Rightarrow> int \<Rightarrow> int \<Rightarrow> int \<Rightarrow> int \<Rightarrow> prim list" where
  "ellipse_points x0 y0 c x y =
     [Pixel (x0 + x) (y0 + y) c,
      Pixel (x0 - x) (y0 + y) c,
      Pixel (x0 + x) (y0 - y) c,
      Pixel (x0 - x) (y0 - y) c]"

text \<open>
  Region 1 of the outline, in integers. From other values than those the method starts it
  with the loop can run forever, so it is a partial function: \<open>None\<close> is a loop that does
  not end. The result is the pixels plotted so far and the final \<open>x\<close>, \<open>y\<close>, \<open>dx\<close>, \<open>dy\<close>.
\<close>

partial_function (option) ellipse_region1 ::
  "int \<Rightarrow> int \<Rightarrow> int \<Rightarrow> int \<Rightarrow> int \<Rightarrow> prim list \<Rightarrow> int \<Rightarrow> int \<Rightarrow> int \<Rightarrow> int \<Rightarrow> int
     \<Rightarrow> (prim list \<times> int \<times> int \<times> int \<times> int) option" where
  "ellipse_region1 x0 y0 c a2 b2 acc x y d dx dy =
     (if dx < dy
      then (let acc = acc @ ellipse_points x0 y0 c x y
            in if d < 0
               then (let x = x + 1; dx = dx + 2 * b2
                     in ellipse_region1 x0 y0 c a2 b2 acc x y (d + (dx + b2)) dx dy)
               else (let x = x + 1; y = y - 1; dx = dx + 2 * b2; dy = dy - 2 * a2
                     in ellipse_region1 x0 y0 c a2 b2 acc x y (d + (dx - dy + b2)) dx dy))
      else Some (acc, x, y, dx, dy))"

text \<open>
  Region 2. Its decision variable \<open>d\<close> is a floating-point number; an addition that
  raises ends the method after the pixels of the current step.
\<close>

function ellipse_region2 ::
  "'f floats \<Rightarrow> int \<Rightarrow> int \<Rightarrow> int \<Rightarrow> int \<Rightarrow> int \<Rightarrow> int \<Rightarrow> int \<Rightarrow> 'f \<Rightarrow> int \<Rightarrow> int \<Rightarrow> drawn" where
  "ellipse_region2 fl x0 y0 c a2 b2 x y d dx dy =
     (if y \<ge> 0
      then (if positive fl d
            then (let y' = y - 1; dy' = dy - 2 * a2
                  in case add_int fl d (a2 - dy') of
                       Inl e \<Rightarrow> (ellipse_points x0 y0 c x y, Inl e)
                     | Inr d' \<Rightarrow>
                         (case ellipse_region2 fl x0 y0 c a2 b2 x y' d' dx dy' of
                            (ps, r) \<Rightarrow> (ellipse_points x0 y0 c x y @ ps, r)))
            else (let y' = y - 1; x' = x + 1; dx' = dx + 2 * b2; dy' = dy - 2 * a2
                  in case add_int fl d (dx' - dy' + a2) of
                       Inl e \<Rightarrow> (ellipse_points x0 y0 c x y, Inl e)
                     | Inr d' \<Rightarrow>
                         (case ellipse_region2 fl x0 y0 c a2 b2 x' y' d' dx' dy' of
                            (ps, r) \<Rightarrow> (ellipse_points x0 y0 c x y @ ps, r))))
      else ([], Inr ()))"
  by pat_completeness auto
termination
  by (relation "measure (\<lambda>(fl, x0, y0, c, a2, b2, x, y, d, dx, dy). nat (y + 1))") auto

definition ellipse :: "'f floats \<Rightarrow> int \<Rightarrow> int \<Rightarrow> int \<Rightarrow> int \<Rightarrow> int \<Rightarrow> bool \<Rightarrow> drawn option" where
  "ellipse fl x0 y0 a b c f =
     (if f
      then Some (ellipse_fill_loop fl x0 y0 a b c [- b..b])
      else (let x = 0; y = b; a2 = a * a; b2 = b * b;
                d = b2 - a2 * b + a2 div 4;
                dx = 0; dy = 2 * a2 * y
            in case ellipse_region1 x0 y0 c a2 b2 [] x y d dx dy of
                 None \<Rightarrow> None
               | Some (ps, x, y, dx, dy) \<Rightarrow>
                   (case region2_start fl b2 x a2 y of
                      Inl e \<Rightarrow> Some (ps, Inl e)
                    | Inr d \<Rightarrow>
                        (case ellipse_region2 fl x0 y0 c a2 b2 x y d dx dy of
                           (ps2, r) \<Rightarrow> Some (ps @ ps2, r)))))"

section \<open>Construction and the public operations\<close>

definition init_display :: "sh1107 action" where
  "init_display =
     seq (for_each init_commands write_cmd)
    (seq (\<lambda>s. (Inr (), fb_fill 0 s))
         show)"

text \<open>
  \<^verbatim>\<open>__init__\<close>: first the assignments to the fields of the new object, then
  \<^verbatim>\<open>init_display\<close>. The result is the outcome of the construction and the state it
  leaves; the caller gets a driver instance only when the outcome is \<open>Inr ()\<close>.
\<close>

definition init_fields :: "bus \<Rightarrow> int \<Rightarrow> bool \<Rightarrow> bool \<Rightarrow> sh1107" where
  "init_fields bus_handle address rot ext_vcc =
     (let w = (if rot then 128 else 64);
          h = (if rot then 64 else 128);
          pgs = h div 8
      in \<lparr>i2c = bus_handle, addr = address, external_vcc = ext_vcc, rotate = rot,
          physical_width = 64, physical_height = 128,
          width = w, height = h, pages = pgs,
          buffer = replicate (pgs * w) 0,
          physical_buffer = (if rot then Some (replicate (16 * 64) 0) else None)\<rparr>)"

definition init :: "bus \<Rightarrow> int \<Rightarrow> bool \<Rightarrow> bool \<Rightarrow> (error + unit) \<times> sh1107" where
  "init bus_handle address rot ext_vcc =
     init_display (init_fields bus_handle address rot ext_vcc)"

datatype op =
    OpFill int
  | OpPixel int int int
  | OpHLine int int int int
  | OpVLine int int int int
  | OpFillRect int int int int int
  | OpCircle int int int int bool
  | OpEllipse int int int int int bool
  | OpTriangle int int int int int int int bool
  | OpShow
  | OpContrast int
  | OpInvert int
  | OpPoweroff
  | OpPoweron

text \<open>
  One public operation on a driver instance: \<open>None\<close> when it does not return, otherwise
  its outcome and the state it leaves.
\<close>

fun apply_op :: "line_points \<Rightarrow> 'f floats \<Rightarrow> op \<Rightarrow> sh1107 \<Rightarrow> ((error + unit) \<times> sh1107) option" where
  "apply_op lp fl (OpFill c) s = Some (Inr (), draw lp [Fill c] s)"
| "apply_op lp fl (OpPixel x y c) s = Some (Inr (), draw lp [Pixel x y c] s)"
| "apply_op lp fl (OpHLine x y w c) s = Some (Inr (), draw lp [HLine x y w c] s)"
| "apply_op lp fl (OpVLine x y h c) s = Some (Inr (), draw lp [VLine x y h c] s)"
| "apply_op lp fl (OpFillRect x y w h c) s = Some (Inr (), draw lp [FillRect x y w h c] s)"
| "apply_op lp fl (OpCircle x0 y0 r c f) s = Some (Inr (), draw lp (circle x0 y0 r c f) s)"
| "apply_op lp fl (OpEllipse x0 y0 a b c f) s =
     (case ellipse fl x0 y0 a b c f of
        None \<Rightarrow> None
      | Some (ps, r) \<Rightarrow> Some (r, draw lp ps s))"
| "apply_op lp fl (OpTriangle x0 y0 x1 y1 x2 y2 c f) s =
     Some (Inr (), draw lp (triangle x0 y0 x1 y1 x2 y2 c f) s)"
| "apply_op lp fl OpShow s = Some (show s)"
| "apply_op lp fl (OpContrast v) s = Some (contrast v s)"
| "apply_op lp fl (OpInvert i) s = Some (invert i s)"
| "apply_op lp fl OpPoweroff s = Some (poweroff s)"
| "apply_op lp fl OpPoweron s = Some (poweron s)"

text \<open>The states of a driver instance: after its construction and after each operation.\<close>

inductive reachable :: "line_points \<Rightarrow> 'f floats \<Rightarrow> sh1107 \<Rightarrow> bool" for lp fl where
  constructed: "init b a rot v = (Inr (), s) \<Longrightarrow> reachable lp fl s"
| operated: "reachable lp fl s \<Longrightarrow> apply_op lp fl oper s = Some (res, s') \<Longrightarrow> reachable lp fl s'"

section \<open>Observations on the bus trace\<close>

text \<open>The buffer that the full-frame transfer sends: the physical one in landscape.\<close>

definition frame :: "sh1107 \<Rightarrow> byte list" where
  "frame s = (if rotate s then (case physical_buffer s of Some pb \<Rightarrow> pb | None \<Rightarrow> [])
              else buffer s)"

text \<open>
  The seven bus writes of one page: page address, column low, column high and four data
  writes of 16 bytes; the events of a page sent without failure (each data write is
  followed by its 50 microsecond delay); and the events of an attempt whose write number
  \<open>k\<close> (from 0) fails.
\<close>

definition page_tx :: "byte list \<Rightarrow> nat \<Rightarrow> byte list list" where
  "page_tx buf page =
     [[0x80, word_of_int (0xB0 OR int page)], [0x80, 0x00], [0x80, 0x10]] @
     map (\<lambda>k. 0x40 # take 16 (drop (page * 64 + 16 * k) buf)) [0..<4]"

definition tx_events :: "int \<Rightarrow> byte list \<Rightarrow> nat \<Rightarrow> nat \<Rightarrow> event list" where
  "tx_events a buf page i =
     (if i < 3 then [Write a (page_tx buf page ! i)]
      else [Write a (page_tx buf page ! i), SleepUs 50])"

definition page_events :: "int \<Rightarrow> byte list \<Rightarrow> nat \<Rightarrow> event list" where
  "page_events a buf page = concat (map (tx_events a buf page) [0..<7])"

definition failed_page_events :: "int \<Rightarrow> byte list \<Rightarrow> nat \<Rightarrow> nat \<Rightarrow> event list" where
  "failed_page_events a buf page k =
     concat (map (tx_events a buf page) [0..<k]) @ [WriteFailed a (page_tx buf page ! k)]"

text \<open>
  The retry policy that the specification states for the full-frame transfer, written as a
  function of the schedule of failing bus writes, to compare \<^verbatim>\<open>show\<close> with. A page takes
  seven bus writes; \<open>first_failure sc\<close> is the number of the first of the next seven writes
  that fails, if one does. For one page the policy gives the outcome, the events and the
  number of bus writes made: the page goes through at the first attempt; or its first
  attempt fails at write \<open>k\<close>, the driver waits 10 ms and sends the three commands and the
  data once more, and the page goes through; or that one retry fails too, at its write
  \<open>m\<close>, and the error is the outcome. The pages follow each other in the given order, each
  on the schedule that the pages before it left, until one of them ends with an error.
\<close>

definition first_failure :: "bool list \<Rightarrow> nat option" where
  "first_failure sc =
     (if True \<in> set (take 7 sc) then Some (length (takeWhile Not (take 7 sc))) else None)"

definition retry_policy_page ::
  "int \<Rightarrow> byte list \<Rightarrow> nat \<Rightarrow> bool list \<Rightarrow> (error + unit) \<times> event list \<times> nat" where
  "retry_policy_page a buf page sc =
     (case first_failure sc of
        None \<Rightarrow> (Inr (), page_events a buf page @ [SleepUs 100], 7)
      | Some k \<Rightarrow>
          (case first_failure (drop (Suc k) sc) of
             None \<Rightarrow>
               (Inr (),
                failed_page_events a buf page k @ [SleepMs 10] @ page_events a buf page,
                Suc k + 7)
           | Some m \<Rightarrow>
               (Inl OSError,
                failed_page_events a buf page k @ [SleepMs 10] @ failed_page_events a buf page m,
                Suc k + Suc m)))"

fun retry_policy_pages ::
  "int \<Rightarrow> byte list \<Rightarrow> nat list \<Rightarrow> bool list \<Rightarrow> (error + unit) \<times> event list \<times> nat" where
  "retry_policy_pages a buf [] sc = (Inr (), [], 0)"
| "retry_policy_pages a buf (page # rest) sc =
     (case retry_policy_page a buf page sc of
        (Inl e, evs, n) \<Rightarrow> (Inl e, evs, n)
      | (Inr u, evs, n) \<Rightarrow>
          (case retry_policy_pages a buf rest (drop n sc) of
             (r, evs', n') \<Rightarrow> (r, evs @ evs', n + n')))"

text \<open>The state after \<open>n\<close> more bus writes that left the events \<open>evs\<close> in the trace.\<close>

definition emit :: "event list \<Rightarrow> nat \<Rightarrow> sh1107 \<Rightarrow> sh1107" where
  "emit evs n s =
     s\<lparr>i2c := \<lparr>schedule = drop n (schedule (i2c s)), trace = trace (i2c s) @ evs\<rparr>\<rparr>"

text \<open>The 21 bytes of the initialization sequence, as they go over the bus.\<close>

definition init_bytes :: "byte list" where
  "init_bytes =
     [0xAE, 0xDC, 0x00, 0x81, 0x2F, 0x20, 0xA0, 0xC0, 0xA8, 0x7F, 0xD3, 0x60, 0xD5, 0x51,
      0xD9, 0x22, 0xDB, 0x35, 0xA4, 0xA6, 0xAF]"

section \<open>Auxiliary notions for the proofs\<close>

text \<open>
  \<open>bits_added S phys out\<close>: the 1024-byte buffer \<open>out\<close> is \<open>phys\<close> with the bits at the
  (byte, bit) positions in \<open>S\<close> set in addition. \<open>dst p c b\<close> is the position that the
  rotation gives to bit \<open>b\<close> of byte \<open>c\<close> of page \<open>p\<close>.
\<close>

definition bits_added :: "(nat \<times> nat) set \<Rightarrow> byte list \<Rightarrow> byte list \<Rightarrow> bool" where
  "bits_added S phys out =
     (length out = 1024 \<and> (\<forall>j<1024. \<forall>k. bit (out ! j) k = (bit (phys ! j) k \<or> (j, k) \<in> S)))"

definition dst :: "nat \<Rightarrow> nat \<Rightarrow> nat \<Rightarrow> nat \<times> nat" where
  "dst p c b = ((127 - c) div 8 * 64 + (p * 8 + b), (127 - c) mod 8)"


text \<open>The invariant of the two buffers.\<close>

definition buffers_ok :: "sh1107 \<Rightarrow> bool" where
  "buffers_ok s =
     (length (buffer s) = width s * height s div 8 \<and> length (buffer s) = 1024 \<and>
      (physical_buffer s \<noteq> None) = rotate s \<and>
      (\<forall>pb. physical_buffer s = Some pb \<longrightarrow> length pb = 1024))"

text \<open>A landscape driver state with a given logical buffer, for concrete instances.\<close>

definition landscape_state :: "byte list \<Rightarrow> sh1107" where
  "landscape_state buf =
     \<lparr>i2c = \<lparr>schedule = [], trace = []\<rparr>, addr = 0x3C, external_vcc = False, rotate = True,
      physical_width = 64, physical_height = 128, width = 128, height = 64, pages = 8,
      buffer = buf, physical_buffer = Some (replicate 1024 0)\<rparr>"

section \<open>Proof setup\<close>

text \<open>
  The defining equations of the loops are recursive without a pattern, so they are unfolded
  by hand, one iteration at a time.
\<close>

declare range_step.simps [simp del]
declare circle_fill_loop.simps [simp del]
declare circle_outline_loop.simps [simp del]
declare ellipse_region2.simps [simp del]

section \<open>Rotation: proofs\<close>

lemma test_bit_iff: "((w::byte) AND push_bit b 1 \<noteq> 0) = bit w b"
  by (simp add: and_exp_eq_0_iff_not_bit)

lemma bit_set_iff: "b < 8 \<Longrightarrow> bit ((w::byte) OR push_bit b 1) k = (bit w k \<or> k = b)"
  by (auto simp: bit_or_iff bit_exp_iff)


lemma dst_index_bound: "p < 8 \<Longrightarrow> c < 128 \<Longrightarrow> b < 8 \<Longrightarrow> (127 - c) div 8 * 64 + (p * 8 + b) < (1024::nat)"
proof -
  assume a: "p < 8" "c < 128" "b < 8"
  have "(127 - c) div 8 \<le> 15" by simp
  then have "(127 - c) div 8 * 64 \<le> 15 * 64" by (rule mult_le_mono1)
  then show ?thesis using a by simp
qed

lemma rotate_bit_ok:
  assumes "length phys = 1024" "p < 8" "c < 128" "b < 8"
  shows "\<exists>out. rotate_bit w p c b phys = (Inr (), out) \<and> length out = 1024 \<and>
           (\<forall>j<1024. \<forall>k. bit (out ! j) k =
              (bit (phys ! j) k \<or> (bit w b \<and> j = (127 - c) div 8 * 64 + (p * 8 + b) \<and> k = (127 - c) mod 8)))"
proof -
  define i where "i = (127 - c) div 8 * 64 + (p * 8 + b)"
  define q where "q = (127 - c) mod 8"
  have dy: "127 - int c = int (127 - c)" using assms by simp
  have idx: "(127 - int c) div 8 * 64 + int (p * 8 + b) = int i"
    unfolding dy i_def by (simp add: zdiv_int)
  have lt: "i < 1024" unfolding i_def using assms by (simp add: dst_index_bound)
  have m: "nat ((127 - int c) mod 8) = q"
    unfolding dy q_def by (simp add: zmod_int nat_mod_distrib)
  have m8: "q < 8" unfolding q_def by simp
  have eq: "rotate_bit w p c b phys =
      (if bit w b then (Inr (), phys[i := phys ! i OR push_bit q 1]) else (Inr (), phys))"
    unfolding rotate_bit_def Let_def idx m test_bit_iff
    using lt assms(1) by simp
  have "\<forall>j<1024. \<forall>k. bit ((phys[i := phys ! i OR push_bit q 1]) ! j) k =
              (bit (phys ! j) k \<or> (j = i \<and> k = q))"
    using assms(1) lt bit_set_iff[OF m8] by (simp add: nth_list_update)
  then show ?thesis
    unfolding eq i_def[symmetric] q_def[symmetric] using assms(1) by auto
qed

lemma for_each_bits_added:
  assumes "length phys = 1024"
    and "\<And>x ph. x \<in> set xs \<Longrightarrow> length ph = 1024 \<Longrightarrow>
           \<exists>out. body x ph = (Inr (), out) \<and> bits_added (F x) ph out"
  shows "\<exists>out. for_each xs body phys = (Inr (), out) \<and> bits_added (\<Union>x\<in>set xs. F x) phys out"
  using assms
proof (induction xs arbitrary: phys)
  case Nil
  then show ?case by (simp add: bits_added_def)
next
  case (Cons x xs)
  from Cons.prems obtain mid where mid: "body x phys = (Inr (), mid)" "bits_added (F x) phys mid"
    by (meson list.set_intros(1))
  then have len: "length mid = 1024" by (simp add: bits_added_def)
  from Cons.IH[OF len] Cons.prems(2) obtain out where
    out: "for_each xs body mid = (Inr (), out)" "bits_added (\<Union>x\<in>set xs. F x) mid out"
    by (meson list.set_intros(2))
  have "bits_added (\<Union>y\<in>set (x # xs). F y) phys out"
    using mid(2) out(2) unfolding bits_added_def by auto
  then show ?case using mid(1) out(1) by simp
qed

lemma rotate_bit_added:
  assumes "length phys = 1024" "p < 8" "c < 128" "b < 8"
  shows "\<exists>out. rotate_bit w p c b phys = (Inr (), out) \<and>
           bits_added (if bit w b then {dst p c b} else {}) phys out"
  using rotate_bit_ok[OF assms, of w] unfolding bits_added_def dst_def by auto

lemma rotate_col_added:
  assumes "length phys = 1024" "length buf = 1024" "p < 8" "c < 128"
  shows "\<exists>out. rotate_col buf p c phys = (Inr (), out) \<and>
           bits_added {dst p c b |b. b < 8 \<and> bit (buf ! (p * 128 + c)) b} phys out"
proof -
  have i: "p * 128 + c < length buf" using assms by simp
  let ?w = "buf ! (p * 128 + c)"
  let ?S = "{dst p c b |b. b < 8 \<and> bit ?w b}"
  show ?thesis
  proof (cases "?w = 0")
    case True
    then have "?S = {}" by simp
    then show ?thesis using True i assms(1) by (simp add: rotate_col_def bits_added_def)
  next
    case False
    have "\<exists>out. for_each [0..<8] (rotate_bit ?w p c) phys = (Inr (), out) \<and>
            bits_added (\<Union>b\<in>set [0..<8]. (if bit ?w b then {dst p c b} else {})) phys out"
      by (rule for_each_bits_added[OF assms(1)]) (use assms in \<open>simp add: rotate_bit_added\<close>)
    moreover have "(\<Union>b\<in>set [0..<8]. (if bit ?w b then {dst p c b} else {})) = ?S"
      by (auto split: if_splits)
    ultimately show ?thesis using False i by (simp add: rotate_col_def Let_def)
  qed
qed

lemma rotate_loops_added:
  assumes "length phys = 1024" "length buf = 1024"
  shows "\<exists>out. rotate_loops buf phys = (Inr (), out) \<and>
           bits_added {dst p c b |p c b. p < 8 \<and> c < 128 \<and> b < 8 \<and> bit (buf ! (p * 128 + c)) b} phys out"
proof -
  have inner: "\<exists>out. for_each [0..<128] (rotate_col buf p) ph = (Inr (), out) \<and>
      bits_added (\<Union>c\<in>set [0..<128]. {dst p c b |b. b < 8 \<and> bit (buf ! (p * 128 + c)) b}) ph out"
    if "p < 8" "length ph = 1024" for p ph
    by (rule for_each_bits_added[OF that(2)]) (use that assms in \<open>simp add: rotate_col_added\<close>)
  have "\<exists>out. for_each [0..<8] (\<lambda>p. for_each [0..<128] (rotate_col buf p)) phys = (Inr (), out) \<and>
      bits_added (\<Union>p\<in>set [0..<8]. \<Union>c\<in>set [0..<128]. {dst p c b |b. b < 8 \<and> bit (buf ! (p * 128 + c)) b}) phys out"
    by (rule for_each_bits_added[OF assms(1)]) (use inner in simp)
  moreover have "(\<Union>p\<in>set [0..<8]. \<Union>c\<in>set [0..<128]. {dst p c b |b. b < 8 \<and> bit (buf ! (p * 128 + c)) b})
      = {dst p c b |p c b. p < 8 \<and> c < 128 \<and> b < 8 \<and> bit (buf ! (p * 128 + c)) b}"
  proof (intro set_eqI iffI)
    fix z
    assume "z \<in> (\<Union>p\<in>set [0..<8]. \<Union>c\<in>set [0..<128]. {dst p c b |b. b < 8 \<and> bit (buf ! (p * 128 + c)) b})"
    then obtain p c b where "p < 8" "c < 128" "b < 8" "bit (buf ! (p * 128 + c)) b" "z = dst p c b"
      by auto
    then show "z \<in> {dst p c b |p c b. p < 8 \<and> c < 128 \<and> b < 8 \<and> bit (buf ! (p * 128 + c)) b}"
      by blast
  next
    fix z
    assume "z \<in> {dst p c b |p c b. p < 8 \<and> c < 128 \<and> b < 8 \<and> bit (buf ! (p * 128 + c)) b}"
    then obtain p c b where *: "p < 8" "c < 128" "b < 8" "bit (buf ! (p * 128 + c)) b" "z = dst p c b"
      by blast
    then have "p \<in> set [0..<8]" "c \<in> set [0..<128]" by simp_all
    with * show "z \<in> (\<Union>p\<in>set [0..<8]. \<Union>c\<in>set [0..<128]. {dst p c b |b. b < 8 \<and> bit (buf ! (p * 128 + c)) b})"
      by blast
  qed
  ultimately show ?thesis by (simp add: rotate_loops_def)
qed

lemma lone_pixel:
  fixes z :: "byte list"
  assumes z: "length z = 1024" "\<And>j. j < 1024 \<Longrightarrow> z ! j = 0"
    and out: "bits_added {dst p c b |p c b. p < 8 \<and> c < 128 \<and> b < 8 \<and> bit (z[i := 2 ^ n] ! (p * 128 + c)) b} z out"
    and i: "i = p0 * 128 + c0" "p0 < 8" "c0 < 128" "n < 8" and d: "dst p0 c0 n = (j0, k0)"
  shows "out = z[j0 := 2 ^ k0]"
proof (rule nth_equalityI)
  show "length out = length (z[j0 := 2 ^ k0])"
    using out z(1) by (simp add: bits_added_def)
next
  fix j assume "j < length out"
  then have j: "j < 1024" using out by (simp add: bits_added_def)
  have k0: "k0 < 8" using d by (auto simp: dst_def)
  have src: "bit (z[i := 2 ^ n] ! (p * 128 + c)) b \<longleftrightarrow> p = p0 \<and> c = c0 \<and> b = n"
    if "p < 8" "c < 128" "b < 8" for p c b
  proof -
    have l: "p * 128 + c < 1024" using that by simp
    have e: "p * 128 + c = p0 * 128 + c0 \<longleftrightarrow> p = p0 \<and> c = c0"
    proof
      assume a: "p * 128 + c = p0 * 128 + c0"
      have "(p * 128 + c) div 128 = p" "(p * 128 + c) mod 128 = c"
           "(p0 * 128 + c0) div 128 = p0" "(p0 * 128 + c0) mod 128 = c0"
        using that i(2,3) by simp_all
      then show "p = p0 \<and> c = c0" using a by metis
    qed simp
    show ?thesis
    proof (cases "p * 128 + c = i")
      case True
      then show ?thesis using e i(1,4) z(1) l that by (simp add: bit_exp_iff)
    next
      case False
      then have "z[i := 2 ^ n] ! (p * 128 + c) = 0" using z(2)[OF l] by simp
      moreover have "\<not> (p = p0 \<and> c = c0)" using False i(1) by auto
      ultimately show ?thesis by auto
    qed
  qed
  have "bit (out ! j) k \<longleftrightarrow> bit (z[j0 := 2 ^ k0] ! j) k" for k
  proof -
    have "bit (out ! j) k \<longleftrightarrow> (j, k) \<in> {dst p c b |p c b. p < 8 \<and> c < 128 \<and> b < 8 \<and> bit (z[i := 2 ^ n] ! (p * 128 + c)) b}"
      using out j z(2) by (simp add: bits_added_def)
    also have "\<dots> \<longleftrightarrow> (j, k) = dst p0 c0 n"
    proof
      assume "(j, k) \<in> {dst p c b |p c b. p < 8 \<and> c < 128 \<and> b < 8 \<and> bit (z[i := 2 ^ n] ! (p * 128 + c)) b}"
      then obtain p c b where *: "p < 8" "c < 128" "b < 8" "bit (z[i := 2 ^ n] ! (p * 128 + c)) b"
          "(j, k) = dst p c b"
        by blast
      from src[OF *(1,2,3)] *(4) have "p = p0 \<and> c = c0 \<and> b = n" by simp
      with *(5) show "(j, k) = dst p0 c0 n" by simp
    next
      assume a: "(j, k) = dst p0 c0 n"
      have "bit (z[i := 2 ^ n] ! (p0 * 128 + c0)) n" using src[OF i(2,3,4)] by simp
      with a i(2,3,4) show "(j, k) \<in> {dst p c b |p c b. p < 8 \<and> c < 128 \<and> b < 8 \<and> bit (z[i := 2 ^ n] ! (p * 128 + c)) b}"
        by blast
    qed
    also have "\<dots> \<longleftrightarrow> bit (z[j0 := 2 ^ k0] ! j) k"
    proof (cases "j = j0")
      case True
      then show ?thesis using j k0 d z(1) by (auto simp: bit_exp_iff)
    next
      case False
      then show ?thesis using j d z(2) by auto
    qed
    finally show ?thesis .
  qed
  then show "out ! j = z[j0 := 2 ^ k0] ! j"
    by (simp add: bit_eq_iff)
qed

text \<open>
  Claim C1. In landscape orientation (both buffers 1024 bytes long) \<^verbatim>\<open>_rotate_buffer\<close>
  returns normally and leaves a physical buffer of 1024 bytes in which, for every set bit
  \<open>b\<close> of byte \<open>c\<close> of page \<open>p\<close> of the logical buffer (pixel \<open>x = c\<close>, \<open>y = 8p + b\<close>), the
  bit \<open>(127 - x) mod 8\<close> of byte \<open>(127 - x) div 8 * 64 + y\<close> is set, and in which no other
  bit is set. A lone lit pixel at \<open>(0,0)\<close> goes to physical \<open>(0,127)\<close> (byte 960, bit 7), at
  \<open>(127,0)\<close> to physical \<open>(0,0)\<close> (byte 0, bit 0) and at \<open>(0,63)\<close> to physical
  \<open>(63,127)\<close> (byte 1023, bit 7).
\<close>

theorem rotate_buffer_correct:
  assumes "length (buffer s) = 1024" "physical_buffer s = Some pb" "length pb = 1024"
  shows "\<exists>out. rotate_buffer s = (Inr (), s\<lparr>physical_buffer := Some out\<rparr>) \<and> length out = 1024 \<and>
     (\<forall>p<8. \<forall>c<128. \<forall>b<8. bit (buffer s ! (p * 128 + c)) b \<longrightarrow>
         bit (out ! ((127 - c) div 8 * 64 + (p * 8 + b))) ((127 - c) mod 8)) \<and>
     (\<forall>j<1024. \<forall>k. bit (out ! j) k \<longrightarrow>
         (\<exists>p<8. \<exists>c<128. \<exists>b<8. bit (buffer s ! (p * 128 + c)) b \<and>
             j = (127 - c) div 8 * 64 + (p * 8 + b) \<and> k = (127 - c) mod 8)) \<and>
     (buffer s = (replicate 1024 0)[0 := 1] \<longrightarrow> out = (replicate 1024 0)[960 := 128]) \<and>
     (buffer s = (replicate 1024 0)[127 := 1] \<longrightarrow> out = (replicate 1024 0)[0 := 1]) \<and>
     (buffer s = (replicate 1024 0)[896 := 128] \<longrightarrow> out = (replicate 1024 0)[1023 := 128])"
proof -
  define z :: "byte list" where "z = replicate 1024 0"
  have z: "length z = 1024" "\<And>j. j < 1024 \<Longrightarrow> z ! j = 0"
    by (simp_all add: z_def)
  have zpb: "replicate (length pb) 0 = z" using assms(3) by (simp add: z_def)
  let ?S = "{dst p c b |p c b. p < 8 \<and> c < 128 \<and> b < 8 \<and> bit (buffer s ! (p * 128 + c)) b}"
  obtain out where out: "rotate_loops (buffer s) z = (Inr (), out)" "bits_added ?S z out"
    using rotate_loops_added[OF z(1) assms(1)] by blast
  have len: "length out = 1024" using out(2) by (simp add: bits_added_def)
  have char: "bit (out ! j) k \<longleftrightarrow> (j, k) \<in> ?S" if "j < 1024" for j k
    using out(2) that z(2) by (simp add: bits_added_def)
  have fwd: "\<forall>p<8. \<forall>c<128. \<forall>b<8. bit (buffer s ! (p * 128 + c)) b \<longrightarrow>
         bit (out ! ((127 - c) div 8 * 64 + (p * 8 + b))) ((127 - c) mod 8)"
  proof (intro allI impI)
    fix p c b :: nat assume a: "p < 8" "c < 128" "b < 8" "bit (buffer s ! (p * 128 + c)) b"
    then have "dst p c b \<in> ?S" by blast
    moreover have "(127 - c) div 8 * 64 + (p * 8 + b) < 1024" using a by (simp add: dst_index_bound)
    ultimately show "bit (out ! ((127 - c) div 8 * 64 + (p * 8 + b))) ((127 - c) mod 8)"
      using char by (simp add: dst_def)
  qed
  have bwd: "\<forall>j<1024. \<forall>k. bit (out ! j) k \<longrightarrow>
         (\<exists>p<8. \<exists>c<128. \<exists>b<8. bit (buffer s ! (p * 128 + c)) b \<and>
             j = (127 - c) div 8 * 64 + (p * 8 + b) \<and> k = (127 - c) mod 8)"
  proof (intro allI impI)
    fix j k assume "j < 1024" "bit (out ! j) k"
    then have "(j, k) \<in> ?S" using char by simp
    then obtain p c b where "p < 8" "c < 128" "b < 8" "bit (buffer s ! (p * 128 + c)) b" "(j, k) = dst p c b"
      by blast
    then show "\<exists>p<8. \<exists>c<128. \<exists>b<8. bit (buffer s ! (p * 128 + c)) b \<and>
             j = (127 - c) div 8 * 64 + (p * 8 + b) \<and> k = (127 - c) mod 8"
      unfolding dst_def by blast
  qed
  have p0: "(1::byte) = 2 ^ 0" "(128::byte) = 2 ^ 7" by simp_all
  have e1: "out = z[960 := 128]" if "buffer s = z[0 := 1]"
    unfolding p0 by (rule lone_pixel[OF z, where i=0 and n=0 and ?p0.0=0 and ?c0.0=0])
       (use out(2) that in \<open>simp_all add: dst_def\<close>)
  have e2: "out = z[0 := 1]" if "buffer s = z[127 := 1]"
    unfolding p0 by (rule lone_pixel[OF z, where i=127 and n=0 and ?p0.0=0 and ?c0.0=127])
       (use out(2) that in \<open>simp_all add: dst_def\<close>)
  have e3: "out = z[1023 := 128]" if "buffer s = z[896 := 128]"
    unfolding p0 by (rule lone_pixel[OF z, where i=896 and n=7 and ?p0.0=7 and ?c0.0=0])
       (use out(2) that in \<open>simp_all add: dst_def\<close>)
  have "rotate_buffer s = (Inr (), s\<lparr>physical_buffer := Some out\<rparr>)"
    using out(1) assms(2) zpb by (simp add: rotate_buffer_def)
  then show ?thesis
    using len fwd bwd e1 e2 e3 unfolding z_def by blast
qed

theorem rotate_buffer_correct_witness:
  "length (buffer (landscape_state ((replicate 1024 0)[0 := 1]))) = 1024 \<and>
   physical_buffer (landscape_state ((replicate 1024 0)[0 := 1])) = Some (replicate 1024 0) \<and>
   length (replicate 1024 (0::byte)) = 1024 \<and>
   rotate_buffer (landscape_state ((replicate 1024 0)[0 := 1])) =
     (Inr (), (landscape_state ((replicate 1024 0)[0 := 1]))
                \<lparr>physical_buffer := Some ((replicate 1024 0)[960 := 128])\<rparr>)"
proof -
  let ?s = "landscape_state ((replicate 1024 0)[0 := 1])"
  have h: "length (buffer ?s) = 1024" "physical_buffer ?s = Some (replicate 1024 0)"
    "length (replicate 1024 (0::byte)) = 1024" "buffer ?s = (replicate 1024 0)[0 := 1]"
    by (simp_all add: landscape_state_def)
  from rotate_buffer_correct[OF h(1,2,3)] h(4) obtain out where
    "rotate_buffer ?s = (Inr (), ?s\<lparr>physical_buffer := Some out\<rparr>)"
    "out = (replicate 1024 0)[960 := 128]"
    by blast
  with h show ?thesis by simp
qed

section \<open>Circle: termination of the outline\<close>

lemma circle_outline_step_decreases:
  assumes "y \<le> x" "circle_outline_step x y err = (x', y', err')"
  shows "x' - y' < x - y"
  using assms by (auto simp: circle_outline_step_def Let_def split: if_splits)

lemma circle_outline_fuel_enough:
  "nat (x - y + 1) \<le> n \<Longrightarrow>
     circle_outline_fuel n x0 y0 c x y err = Some (circle_outline_loop x0 y0 c x y err)"
proof (induction n arbitrary: x y err)
  case 0
  then show ?case by (simp add: circle_outline_loop.simps[of x0 y0 c x y err])
next
  case (Suc n)
  show ?case
  proof (cases "y \<le> x")
    case False
    then show ?thesis by (simp add: circle_outline_loop.simps[of x0 y0 c x y err])
  next
    case True
    obtain x' y' err' where st: "circle_outline_step x y err = (x', y', err')"
      by (cases "circle_outline_step x y err") auto
    from circle_outline_step_decreases[OF True st] Suc.prems
    have "nat (x' - y' + 1) \<le> n" by simp
    from Suc.IH[OF this] show ?thesis using True st
      by (simp add: circle_outline_loop.simps[of x0 y0 c x y err])
  qed
qed

text \<open>
  Claim C10. The outline loop of \<^verbatim>\<open>circle\<close> ends for every integer radius: run with a
  bound of \<open>r + 1\<close> iterations it returns, and what it returns is the result of the outline
  algorithm; and each iteration that the loop condition \<open>x \<ge> y\<close> admits makes \<open>x - y\<close>
  strictly smaller, whatever the error term is.
\<close>

theorem circle_outline_terminates:
  "circle_outline_fuel (nat (r + 1)) x0 y0 c r 0 0 = Some (circle x0 y0 r c False) \<and>
   (y \<le> x \<longrightarrow> (case circle_outline_step x y err of (x', y', err') \<Rightarrow> x' - y' < x - y))"
  using circle_outline_fuel_enough[of r 0 "nat (r + 1)" x0 y0 c 0]
  by (auto simp: circle_def dest: circle_outline_step_decreases)

theorem circle_outline_terminates_witness:
  "circle_outline_fuel (nat (1 + 1)) 5 5 1 1 0 0 = Some (circle 5 5 1 1 False) \<and>
   ((0::int) \<le> 1 \<and> (case circle_outline_step 1 0 0 of (x', y', err') \<Rightarrow> x' - y' < 1 - 0))"
  using circle_outline_terminates[of 1 5 5 1 0 1 0] by simp

section \<open>Circle: the outline lies in the filled disk\<close>

lemma outline_pixels:
  assumes "pr \<in> set (circle_outline_loop x0 y0 c x y err)"
    and "err = x * x + y * y - r * r + 2 * y" "y \<le> x \<longrightarrow> err \<le> 0" "0 \<le> y" "x \<le> r"
  shows "\<exists>a b. 0 \<le> b \<and> b \<le> a \<and> a \<le> r \<and> a * a + b * b + 2 * b \<le> r * r \<and>
               pr \<in> set (circle_points x0 y0 c a b)"
  using assms
proof (induction x0 y0 c x y err rule: circle_outline_loop.induct)
  case (1 x0 y0 c x y err)
  have xy: "y \<le> x"
  proof (rule ccontr)
    assume "\<not> y \<le> x"
    then show False using "1.prems"(1)
      by (simp add: circle_outline_loop.simps[of x0 y0 c x y err])
  qed
  then have e0: "err \<le> 0" using "1.prems"(3) by simp
  obtain x' y' err' where st: "circle_outline_step x y err = (x', y', err')"
    by (cases "circle_outline_step x y err") auto
  from "1.prems"(1) xy st
  consider "pr \<in> set (circle_points x0 y0 c x y)"
    | "pr \<in> set (circle_outline_loop x0 y0 c x' y' err')"
    by (auto simp: circle_outline_loop.simps[of x0 y0 c x y err])
  then show ?case
  proof cases
    case 1
    then show ?thesis using xy e0 "1.prems"(2,4,5) by (intro exI[of _ x] exI[of _ y]) simp
  next
    case 2
    have y': "y' = y + 1" using st e0 by (auto simp: circle_outline_step_def Let_def split: if_splits)
    have x': "x' = x \<or> x' = x - 1" using st by (auto simp: circle_outline_step_def Let_def split: if_splits)
    have inv: "err' = x' * x' + y' * y' - r * r + 2 * y'"
      using st e0 "1.prems"(2)
      by (auto simp: circle_outline_step_def Let_def algebra_simps split: if_splits)
    have le: "y' \<le> x' \<longrightarrow> err' \<le> 0"
      using st e0 by (auto simp: circle_outline_step_def Let_def split: if_splits)
    show ?thesis
      by (rule "1.IH"[OF xy st[symmetric] refl 2 inv le]) (use y' x' "1.prems"(4,5) in auto)
  qed
qed


lemma circle_fill_step_cases:
  assumes "circle_fill_step x y err = (x', y', err')"
  shows "y' = y + 1 \<and>
         ((x' = x \<and> err' = err + (1 + 2 * y) \<and> 2 * err' \<le> 2 * x + 1) \<or>
          (x' = x - 1 \<and> err' = err + (1 + 2 * y) + (1 - 2 * x') \<and> 2 * (err + (1 + 2 * y)) > 2 * x + 1))"
  using assms by (auto simp: circle_fill_step_def Let_def split: if_splits)

lemma fill_loop_unfold:
  "y \<le> r \<Longrightarrow> circle_fill_loop x0 y0 r c x y err =
     [HLine (x0 - x) (y0 + y) (2 * x + 1) c] @
     (if y \<noteq> 0 then [HLine (x0 - x) (y0 - y) (2 * x + 1) c] else []) @
     (case circle_fill_step x y err of
        (x', y', err') \<Rightarrow> circle_fill_loop x0 y0 r c x' y' err')"
  by (subst circle_fill_loop.simps) simp

lemma fill_row_here:
  assumes "y \<le> r"
  shows "HLine (x0 - x) (y0 + y) (2 * x + 1) c \<in> set (circle_fill_loop x0 y0 r c x y err) \<and>
         HLine (x0 - x) (y0 - y) (2 * x + 1) c \<in> set (circle_fill_loop x0 y0 r c x y err)"
  by (auto simp: fill_loop_unfold[OF assms])

lemma fill_tail_subset:
  assumes "y \<le> r" "circle_fill_step x y err = (x', y', err')"
  shows "set (circle_fill_loop x0 y0 r c x' y' err') \<subseteq> set (circle_fill_loop x0 y0 r c x y err)"
  using assms by (auto simp: fill_loop_unfold)

lemma fill_lipschitz:
  assumes "y \<le> b" "b \<le> r" "a \<le> x - (b - y)"
  shows "\<exists>X. a \<le> X \<and>
           HLine (x0 - X) (y0 + b) (2 * X + 1) c \<in> set (circle_fill_loop x0 y0 r c x y err) \<and>
           HLine (x0 - X) (y0 - b) (2 * X + 1) c \<in> set (circle_fill_loop x0 y0 r c x y err)"
  using assms
proof (induction x0 y0 r c x y err rule: circle_fill_loop.induct)
  case (1 x0 y0 r c x y err)
  have yr: "y \<le> r" using "1.prems" by simp
  show ?case
  proof (cases "b = y")
    case True
    then show ?thesis using fill_row_here[OF yr, of x0 x y0 c err] "1.prems"(3) by auto
  next
    case False
    obtain x' y' err' where st: "circle_fill_step x y err = (x', y', err')"
      by (cases "circle_fill_step x y err") auto
    from circle_fill_step_cases[OF st] have y': "y' = y + 1" and x': "x - 1 \<le> x'" by auto
    have "\<exists>X. a \<le> X \<and>
           HLine (x0 - X) (y0 + b) (2 * X + 1) c \<in> set (circle_fill_loop x0 y0 r c x' y' err') \<and>
           HLine (x0 - X) (y0 - b) (2 * X + 1) c \<in> set (circle_fill_loop x0 y0 r c x' y' err')"
      by (rule "1.IH"[OF yr st[symmetric] refl]) (use False y' x' "1.prems" in auto)
    then show ?thesis using fill_tail_subset[OF yr st, of x0 y0 c] by blast
  qed
qed


lemma consecutive_product_mono:
  fixes x a :: int
  assumes "0 \<le> x" "x \<le> a - 1"
  shows "x * (x - 1) \<le> (a - 1) * (a - 2)"
proof (cases "x = 0")
  case True
  have "0 \<le> (a - 1) * (a - 2)"
  proof (cases "a = 1")
    case True then show ?thesis by simp
  next
    case False
    then have "0 \<le> a - 1" "0 \<le> a - 2" using assms by auto
    then show ?thesis by (rule mult_nonneg_nonneg)
  qed
  with True show ?thesis by simp
next
  case False
  then have "0 \<le> x - 1" "x - 1 \<le> a - 2" "0 \<le> a - 1" using assms by auto
  with assms(2) show ?thesis by (intro mult_mono) auto
qed

lemma fill_wide_enough:
  fixes x y r a :: int
  assumes inv: "x = r \<or> r * r - 2 * r + 3 \<le> x * x - x + y * y"
    and lip: "r - y \<le> x"
    and good: "0 \<le> y" "y \<le> a" "a \<le> r" "a * a + y * y + 2 * y \<le> r * r"
  shows "a \<le> x"
proof (rule ccontr)
  assume "\<not> a \<le> x"
  then have xa: "x \<le> a - 1" by simp
  have x0: "0 \<le> x" using lip good by simp
  have F: "r * r - 2 * r + 3 \<le> x * x - x + y * y" using inv xa good(3) by auto
  define d where "d = r - a"
  have r: "r = a + d" by (simp add: d_def)
  have h1: "x * x - x \<le> a * a - 3 * a + 2"
    using consecutive_product_mono[OF x0 xa] by (simp add: algebra_simps)
  have h2: "y * y \<le> a * a" using good(1,2) by (intro mult_mono) auto
  have lin: "3 * a + 2 * y + 1 \<le> 2 * r" using F h1 good(4) by linarith
  then have d2: "a + 1 \<le> 2 * d" using good(1) by (simp add: d_def)
  have a1: "1 \<le> a" using x0 xa by simp
  have "a * (a + 1) \<le> a * (2 * d)" using d2 a1 by (intro mult_left_mono) auto
  then have h3: "a * a + a \<le> 2 * (a * d)" by (simp add: algebra_simps)
  have "0 \<le> (d - 1) * (d - 1)" by simp
  then have h4: "2 * d \<le> d * d + 1" by (simp add: algebra_simps)
  have rr: "r * r = a * a + 2 * (a * d) + d * d" unfolding r by (simp add: algebra_simps)
  from F h1 have "r * r - 2 * r + 3 \<le> a * a - 3 * a + 2 + y * y" by linarith
  with rr r h2 h3 h4 a1 show False by linarith
qed

lemma fill_inv_step:
  fixes x y err r :: int
  assumes e: "err = x * x + y * y - r * r + 2 * (r - x)"
    and y0: "0 \<le> y"
    and inv: "x = r \<or> r * r - 2 * r + 3 \<le> x * x - x + y * y"
    and lip: "r - y \<le> x"
    and st: "circle_fill_step x y err = (x', y', err')"
  shows "err' = x' * x' + y' * y' - r * r + 2 * (r - x') \<and> 0 \<le> y' \<and>
         (x' = r \<or> r * r - 2 * r + 3 \<le> x' * x' - x' + y' * y') \<and> r - y' \<le> x' \<and> y' = y + 1"
proof -
  from circle_fill_step_cases[OF st] have y': "y' = y + 1" by simp
  have yy: "y' * y' = y * y + 2 * y + 1" unfolding y' by (simp add: algebra_simps)
  from circle_fill_step_cases[OF st] consider
      (keep) "x' = x" "err' = err + (1 + 2 * y)"
    | (dec) "x' = x - 1" "err' = err + (1 + 2 * y) + (1 - 2 * x')" "2 * (err + (1 + 2 * y)) > 2 * x + 1"
    by auto
  then show ?thesis
  proof cases
    case keep
    have "x' = r \<or> r * r - 2 * r + 3 \<le> x' * x' - x' + y' * y'"
      using inv y0 unfolding keep(1) yy by auto
    then show ?thesis using keep e y0 lip y' yy by (simp add: algebra_simps)
  next
    case dec
    have xx: "x' * x' = x * x - 2 * x + 1" unfolding dec(1) by (simp add: algebra_simps)
    have "r * r - 2 * r + 3 \<le> x' * x' - x' + y' * y'"
      using dec(3) unfolding xx yy e dec(1) by (simp add: algebra_simps)
    moreover have "err' = x' * x' + y' * y' - r * r + 2 * (r - x')"
      unfolding dec(2) e xx yy dec(1) by (simp add: algebra_simps)
    ultimately show ?thesis using y0 lip y' dec(1) by simp
  qed
qed


lemma fill_covers:
  assumes "err = x * x + y * y - r * r + 2 * (r - x)" "0 \<le> y"
    "x = r \<or> r * r - 2 * r + 3 \<le> x * x - x + y * y" "r - y \<le> x"
    and "y \<le> y1" "y1 \<le> b" "b \<le> r"
    and "y1 \<le> a1" "a1 \<le> r" "a1 * a1 + y1 * y1 + 2 * y1 \<le> r * r"
  shows "\<exists>X. a1 - (b - y1) \<le> X \<and>
           HLine (x0 - X) (y0 + b) (2 * X + 1) c \<in> set (circle_fill_loop x0 y0 r c x y err) \<and>
           HLine (x0 - X) (y0 - b) (2 * X + 1) c \<in> set (circle_fill_loop x0 y0 r c x y err)"
  using assms
proof (induction x0 y0 r c x y err rule: circle_fill_loop.induct)
  case (1 x0 y0 r c x y err)
  have yr: "y \<le> r" using "1.prems" by simp
  show ?case
  proof (cases "y = y1")
    case True
    have "a1 \<le> x"
      by (rule fill_wide_enough[of x r y a1]) (use "1.prems" True in auto)
    then have "a1 - (b - y1) \<le> x - (b - y)" using True by simp
    from fill_lipschitz[OF _ _ this, of r x0 y0 c err] "1.prems" True show ?thesis by simp
  next
    case False
    obtain x' y' err' where st: "circle_fill_step x y err = (x', y', err')"
      by (cases "circle_fill_step x y err") auto
    note inv = fill_inv_step[OF "1.prems"(1,2,3,4) st]
    have "\<exists>X. a1 - (b - y1) \<le> X \<and>
           HLine (x0 - X) (y0 + b) (2 * X + 1) c \<in> set (circle_fill_loop x0 y0 r c x' y' err') \<and>
           HLine (x0 - X) (y0 - b) (2 * X + 1) c \<in> set (circle_fill_loop x0 y0 r c x' y' err')"
      by (rule "1.IH"[OF yr st[symmetric] refl]) (use inv False "1.prems" in auto)
    then show ?thesis using fill_tail_subset[OF yr st, of x0 y0 c] by blast
  qed
qed

lemma pixel_in_span:
  assumes "HLine (x0 - X) q (2 * X + 1) c \<in> set ps" "\<bar>px - x0\<bar> \<le> X"
  shows "(px, q) \<in> plotted ps"
proof -
  have "(px, q) \<in> prim_pixels (HLine (x0 - X) q (2 * X + 1) c)" using assms(2) by auto
  then show ?thesis using assms(1) unfolding plotted_def by blast
qed

lemma circle_points_pixels:
  assumes "pr \<in> set (circle_points x0 y0 c a b)" "pt \<in> prim_pixels pr"
  shows "(\<bar>fst pt - x0\<bar> = \<bar>a\<bar> \<and> (snd pt = y0 + b \<or> snd pt = y0 - b)) \<or>
         (\<bar>fst pt - x0\<bar> = \<bar>b\<bar> \<and> (snd pt = y0 + a \<or> snd pt = y0 - a))"
  using assms unfolding circle_points_def by auto

text \<open>
  Claim C5. For every centre and every radius \<open>r \<ge> 0\<close> the pixels plotted by the outline
  algorithm (\<open>f = False\<close>) are among the pixels plotted by the filled-circle algorithm
  (\<open>f = True\<close>) for the same centre and radius.
\<close>

theorem circle_outline_subset_fill:
  assumes "0 \<le> r"
  shows "plotted (circle x0 y0 r c False) \<subseteq> plotted (circle x0 y0 r c True)"
proof
  fix pt assume "pt \<in> plotted (circle x0 y0 r c False)"
  then obtain pr where pr: "pr \<in> set (circle_outline_loop x0 y0 c r 0 0)" "pt \<in> prim_pixels pr"
    by (auto simp: plotted_def circle_def)
  from outline_pixels[OF pr(1), of r] obtain a b where
    ab: "0 \<le> b" "b \<le> a" "a \<le> r" "a * a + b * b + 2 * b \<le> r * r"
      "pr \<in> set (circle_points x0 y0 c a b)"
    by auto
  let ?L = "circle_fill_loop x0 y0 r c r 0 0"
  obtain X where X: "a \<le> X" "HLine (x0 - X) (y0 + b) (2 * X + 1) c \<in> set ?L"
      "HLine (x0 - X) (y0 - b) (2 * X + 1) c \<in> set ?L"
    using fill_covers[of 0 r 0 r b b a x0 y0 c] ab by auto
  obtain Y where Y: "b \<le> Y" "HLine (x0 - Y) (y0 + a) (2 * Y + 1) c \<in> set ?L"
      "HLine (x0 - Y) (y0 - a) (2 * Y + 1) c \<in> set ?L"
    using fill_covers[of 0 r 0 r b a a x0 y0 c] ab by auto
  from circle_points_pixels[OF ab(5) pr(2)] ab(1,2)
  consider (row_b) "\<bar>fst pt - x0\<bar> \<le> a" "snd pt = y0 + b \<or> snd pt = y0 - b"
    | (row_a) "\<bar>fst pt - x0\<bar> \<le> b" "snd pt = y0 + a \<or> snd pt = y0 - a"
    by fastforce
  then have "pt \<in> plotted ?L"
  proof cases
    case row_b
    then have "\<bar>fst pt - x0\<bar> \<le> X" using X(1) by simp
    from pixel_in_span[OF X(2) this] pixel_in_span[OF X(3) this] row_b(2)
    show ?thesis by (cases pt) auto
  next
    case row_a
    then have "\<bar>fst pt - x0\<bar> \<le> Y" using Y(1) by simp
    from pixel_in_span[OF Y(2) this] pixel_in_span[OF Y(3) this] row_a(2)
    show ?thesis by (cases pt) auto
  qed
  then show "pt \<in> plotted (circle x0 y0 r c True)" by (simp add: circle_def)
qed

theorem circle_outline_subset_fill_witness:
  "(0::int) \<le> 2 \<and> plotted (circle 5 5 2 1 False) \<subseteq> plotted (circle 5 5 2 1 True)"
  using circle_outline_subset_fill[of 2 5 5 1] by simp

section \<open>Bus transport: one write, one page\<close>

lemma emit_simps [simp]:
  "addr (emit evs n s) = addr s"
  "buffer (emit evs n s) = buffer s"
  "physical_buffer (emit evs n s) = physical_buffer s"
  "rotate (emit evs n s) = rotate s"
  "width (emit evs n s) = width s"
  "height (emit evs n s) = height s"
  "schedule (i2c (emit evs n s)) = drop n (schedule (i2c s))"
  "trace (i2c (emit evs n s)) = trace (i2c s) @ evs"
  by (simp_all add: emit_def)

lemma emit_emit [simp]: "emit e2 n2 (emit e1 n1 s) = emit (e1 @ e2) (n1 + n2) s"
  by (simp add: emit_def add.commute)

lemma frame_emit [simp]: "frame (emit evs n s) = frame s"
  by (simp add: frame_def)

lemma writeto_ok:
  assumes "True \<notin> set (take 1 (schedule b))"
  shows "writeto a bs b = (Inr (), \<lparr>schedule = drop 1 (schedule b), trace = trace b @ [Write a bs]\<rparr>)"
  using assms by (cases b; cases "schedule b") (auto simp: writeto_def drop_Suc)

lemma writeto_fail:
  assumes "take 1 (schedule b) = [True]"
  shows "writeto a bs b = (Inl OSError, \<lparr>schedule = drop 1 (schedule b), trace = trace b @ [WriteFailed a bs]\<rparr>)"
  using assms by (cases b; cases "schedule b") (auto simp: writeto_def)

lemma data_write_ok:
  assumes "True \<notin> set (take 1 (schedule (i2c s)))"
  shows "seq (on_bus (writeto a bs)) (sleep_us 50) s
           = (Inr (), emit [Write a bs, SleepUs 50] 1 s)"
  using writeto_ok[OF assms] by (simp add: seq_def on_bus_def sleep_us_def emit_def)

lemma data_write_fail:
  assumes "take 1 (schedule (i2c s)) = [True]"
  shows "seq (on_bus (writeto a bs)) (sleep_us 50) s
           = (Inl OSError, emit [WriteFailed a bs] 1 s)"
  using writeto_fail[OF assms] by (simp add: seq_def on_bus_def emit_def)

lemma write_cmd_ok:
  assumes "0 \<le> cmd" "cmd < 256" "True \<notin> set (take 1 (schedule (i2c s)))"
  shows "write_cmd cmd s = (Inr (), emit [Write (addr s) [0x80, word_of_int cmd]] 1 s)"
  using writeto_ok[OF assms(3)] assms(1,2) by (simp add: write_cmd_def on_bus_def emit_def)

lemma write_cmd_fail:
  assumes "0 \<le> cmd" "cmd < 256" "take 1 (schedule (i2c s)) = [True]"
  shows "write_cmd cmd s = (Inl OSError, emit [WriteFailed (addr s) [0x80, word_of_int cmd]] 1 s)"
  using writeto_fail[OF assms(3)] assms(1,2) by (simp add: write_cmd_def on_bus_def emit_def)

lemma sleep_emit:
  "sleep_us n s = (Inr (), emit [SleepUs n] 0 s)" "sleep_ms n s = (Inr (), emit [SleepMs n] 0 s)"
  by (simp_all add: sleep_us_def sleep_ms_def emit_def)

lemma for_each_append:
  "for_each (xs @ ys) body s =
     (case for_each xs body s of (Inl e, s') \<Rightarrow> (Inl e, s') | (Inr u, s') \<Rightarrow> for_each ys body s')"
  by (induction xs arbitrary: s) (auto split: prod.splits sum.splits)


lemma range_step_64: "range_step 0 64 16 = [0, 16, 32, 48]"
  by (simp add: range_step.simps)

lemma page_chunk:
  "i + 16 \<le> 64 \<Longrightarrow> take 16 (drop i (take 64 (drop m buf))) = take 16 (drop (m + i) buf)"
  by (simp add: drop_take min_def add.commute)

lemma page_tx_unfold:
  "page_tx buf p =
     [[0x80, word_of_int (0xB0 OR int p)], [0x80, 0x00], [0x80, 0x10],
      0x40 # take 16 (drop (p * 64) buf),
      0x40 # take 16 (drop (p * 64 + 16) buf),
      0x40 # take 16 (drop (p * 64 + 32) buf),
      0x40 # take 16 (drop (p * 64 + 48) buf)]"
  by (simp add: page_tx_def upt_rec)

lemma page_addr_range: "p < 16 \<Longrightarrow> 0 \<le> SET_PAGE_ADDR OR int p \<and> SET_PAGE_ADDR OR int p < 256"
proof -
  assume "p < 16"
  then have "(0xB0::int) OR int p < 2 ^ 8" by (intro OR_upper) auto
  then show ?thesis by (simp add: SET_PAGE_ADDR_def)
qed

lemma page_events_unfold:
  "page_events a buf p =
     [Write a [0x80, word_of_int (0xB0 OR int p)], Write a [0x80, 0x00], Write a [0x80, 0x10],
      Write a (0x40 # take 16 (drop (p * 64) buf)), SleepUs 50,
      Write a (0x40 # take 16 (drop (p * 64 + 16) buf)), SleepUs 50,
      Write a (0x40 # take 16 (drop (p * 64 + 32) buf)), SleepUs 50,
      Write a (0x40 # take 16 (drop (p * 64 + 48) buf)), SleepUs 50]"
  by (simp add: page_events_def tx_events_def page_tx_unfold upt_rec)


lemma take_no_True:
  "True \<notin> set (take (m + n) xs) \<Longrightarrow> True \<notin> set (take m xs) \<and> True \<notin> set (take n (drop m xs))"
  by (metis Un_iff set_append take_add)

lemma for_each_cong:
  "(\<And>x s. x \<in> set xs \<Longrightarrow> f x s = g x s) \<Longrightarrow> for_each xs f s = for_each xs g s"
  by (induction xs arbitrary: s) (auto split: prod.splits sum.splits)

lemma write_data_page:
  assumes "p * 64 + 64 \<le> length buf"
  shows "write_data (take 64 (drop (p * 64) buf)) s =
           for_each [0, 16, 32, 48]
             (\<lambda>i s. seq (on_bus (writeto (addr s) (0x40 # take 16 (drop (p * 64 + i) buf))))
                         (sleep_us 50) s) s"
proof -
  have "length (take 64 (drop (p * 64) buf)) = 64" using assms by simp
  then have "write_data (take 64 (drop (p * 64) buf)) s =
      for_each [0, 16, 32, 48]
        (\<lambda>i s. seq (on_bus (writeto (addr s) ([0x40] @ take 16 (drop i (take 64 (drop (p * 64) buf))))))
                         (sleep_us 50) s) s"
    by (simp only: write_data_def chunk_size_def range_step_64)
  also have "\<dots> = for_each [0, 16, 32, 48]
             (\<lambda>i s. seq (on_bus (writeto (addr s) (0x40 # take 16 (drop (p * 64 + i) buf))))
                         (sleep_us 50) s) s"
  proof (rule for_each_cong)
    fix x :: nat and t :: sh1107
    assume "x \<in> set [0, 16, 32, 48]"
    then have "x + 16 \<le> 64" by auto
    then show "seq (on_bus (writeto (addr t) ([0x40] @ take 16 (drop x (take 64 (drop (p * 64) buf))))))
                 (sleep_us 50) t =
               seq (on_bus (writeto (addr t) (0x40 # take 16 (drop (p * 64 + x) buf)))) (sleep_us 50) t"
      by (simp only: page_chunk append_Cons append_Nil)
  qed
  finally show ?thesis .
qed

lemma seq_write_cmd_ok:
  assumes "0 \<le> cmd" "cmd < 256" "True \<notin> set (take 1 (schedule (i2c s)))"
  shows "seq (write_cmd cmd) g s = g (emit [Write (addr s) [0x80, word_of_int cmd]] 1 s)"
  by (simp add: seq_def write_cmd_ok[OF assms])

lemma seq_write_cmd_fail:
  assumes "0 \<le> cmd" "cmd < 256" "take 1 (schedule (i2c s)) = [True]"
  shows "seq (write_cmd cmd) g s = (Inl OSError, emit [WriteFailed (addr s) [0x80, word_of_int cmd]] 1 s)"
  by (simp add: seq_def write_cmd_fail[OF assms])

lemma seven: "(7::nat) = Suc (Suc (Suc (Suc (Suc (Suc (Suc 0))))))"
  by simp

lemma send_page_ok:
  assumes "p < 16" "p * 64 + 64 \<le> length buf" "True \<notin> set (take 7 (schedule (i2c s)))"
  shows "send_page buf p s = (Inr (), emit (page_events (addr s) buf p) 7 s)"
proof -
  let ?sc = "schedule (i2c s)"
  have t: "True \<notin> set (take 1 (drop k ?sc))" if "k < 7" for k
  proof -
    have "take 1 (drop k ?sc) = drop k (take (k + 1) ?sc)" by (simp add: drop_take)
    moreover have "set (take (k + 1) ?sc) \<subseteq> set (take 7 ?sc)"
      using that by (intro set_take_subset_set_take) simp
    ultimately show ?thesis using assms(3) by (metis in_set_dropD subsetD)
  qed
  note r = page_addr_range[OF assms(1)]
  show ?thesis
    unfolding send_page_def page_events_unfold seven
    using t[of 0] t[of "Suc 0"] t[of "Suc (Suc 0)"] t[of "Suc (Suc (Suc 0))"]
      t[of "Suc (Suc (Suc (Suc 0)))"] t[of "Suc (Suc (Suc (Suc (Suc 0))))"]
      t[of "Suc (Suc (Suc (Suc (Suc (Suc 0)))))"] r
    by (simp add: seq_write_cmd_ok data_write_ok write_data_page[OF assms(2)]
          SET_COL_ADDR_LOW_def SET_COL_ADDR_HIGH_def SET_PAGE_ADDR_def)
qed


lemma less_seven_cases:
  assumes "k < (7::nat)"
  obtains "k = 0" | "k = Suc 0" | "k = Suc (Suc 0)" | "k = Suc (Suc (Suc 0))"
    | "k = Suc (Suc (Suc (Suc 0)))" | "k = Suc (Suc (Suc (Suc (Suc 0))))"
    | "k = Suc (Suc (Suc (Suc (Suc (Suc 0)))))"
  using assms unfolding seven by (auto simp: less_Suc_eq)

lemma send_page_fail:
  assumes "p < 16" "p * 64 + 64 \<le> length buf" "k < 7"
    and sc: "schedule (i2c s) = replicate k False @ True # rest"
  shows "send_page buf p s = (Inl OSError, emit (failed_page_events (addr s) buf p k) (Suc k) s)"
proof -
  note r = page_addr_range[OF assms(1)]
  note simps = send_page_def failed_page_events_def tx_events_def page_tx_unfold
    seq_write_cmd_ok seq_write_cmd_fail write_cmd_fail data_write_ok data_write_fail
    write_data_page[OF assms(2)]
    SET_COL_ADDR_LOW_def SET_COL_ADDR_HIGH_def SET_PAGE_ADDR_def
  from assms(3) show ?thesis
  proof (cases rule: less_seven_cases)
    case 1 then show ?thesis using sc r by (simp add: simps)
  next
    case 2 then show ?thesis using sc r by (simp add: simps)
  next
    case 3 then show ?thesis using sc r by (simp add: simps)
  next
    case 4 then show ?thesis using sc r by (simp add: simps)
  next
    case 5 then show ?thesis using sc r by (simp add: simps)
  next
    case 6 then show ?thesis using sc r by (simp add: simps)
  next
    case 7 then show ?thesis using sc r by (simp add: simps)
  qed
qed


lemma show_page_ok:
  assumes "p < 16" "p * 64 + 64 \<le> length buf" "True \<notin> set (take 7 (schedule (i2c s)))"
  shows "show_page buf p s = (Inr (), emit (page_events (addr s) buf p @ [SleepUs 100]) 7 s)"
  by (simp add: show_page_def try_except_OSError_def seq_def send_page_ok[OF assms] sleep_emit)

lemma drop_after_failure:
  "drop (Suc k) (replicate k False @ True # rest) = rest"
  by (induction k) auto

lemma show_page_retry:
  assumes "p < 16" "p * 64 + 64 \<le> length buf" "k < 7"
    and sc: "schedule (i2c s) = replicate k False @ True # rest"
    and ok: "True \<notin> set (take 7 rest)"
  shows "show_page buf p s =
           (Inr (), emit (failed_page_events (addr s) buf p k @ [SleepMs 10] @ page_events (addr s) buf p)
                      (Suc k + 7) s)"
proof -
  let ?s1 = "emit (failed_page_events (addr s) buf p k) (Suc k) s"
  let ?s2 = "emit [SleepMs 10] 0 ?s1"
  have "True \<notin> set (take 7 (schedule (i2c ?s2)))"
    using ok by (simp add: sc drop_after_failure del: emit_emit)
  from send_page_ok[OF assms(1,2) this]
  show ?thesis
    by (simp add: show_page_def try_except_OSError_def seq_def
          send_page_fail[OF assms(1,2,3) sc] sleep_emit)
qed

lemma show_page_fatal:
  assumes "p < 16" "p * 64 + 64 \<le> length buf" "k < 7" "m < 7"
    and sc: "schedule (i2c s) = replicate k False @ True # replicate m False @ True # rest"
  shows "show_page buf p s =
           (Inl OSError, emit (failed_page_events (addr s) buf p k @ [SleepMs 10] @
                               failed_page_events (addr s) buf p m) (Suc k + Suc m) s)"
proof -
  let ?s1 = "emit (failed_page_events (addr s) buf p k) (Suc k) s"
  let ?s2 = "emit [SleepMs 10] 0 ?s1"
  have "schedule (i2c ?s2) = replicate m False @ True # rest"
    by (simp add: sc drop_after_failure del: emit_emit)
  from send_page_fail[OF assms(1,2,4) this]
  show ?thesis
    by (simp add: show_page_def try_except_OSError_def seq_def
          send_page_fail[OF assms(1,2,3) sc] sleep_emit)
qed

lemma show_pages_ok:
  assumes "\<forall>p\<in>set ps. p < 16" "1024 \<le> length buf"
    and "True \<notin> set (take (7 * length ps) (schedule (i2c s)))"
  shows "for_each ps (show_page buf) s =
           (Inr (), emit (concat (map (\<lambda>q. page_events (addr s) buf q @ [SleepUs 100]) ps))
                      (7 * length ps) s)"
  using assms
proof (induction ps arbitrary: s)
  case Nil
  then show ?case by (simp add: emit_def)
next
  case (Cons p ps)
  have p: "p < 16" "p * 64 + 64 \<le> length buf" using Cons.prems(1,2) by auto
  have "True \<notin> set (take (7 + 7 * length ps) (schedule (i2c s)))"
    using Cons.prems(3) by (simp add: add.commute)
  from take_no_True[OF this]
  have h: "True \<notin> set (take 7 (schedule (i2c s)))"
    "True \<notin> set (take (7 * length ps) (drop 7 (schedule (i2c s))))" by auto
  let ?s1 = "emit (page_events (addr s) buf p @ [SleepUs 100]) 7 s"
  have "for_each ps (show_page buf) ?s1 =
      (Inr (), emit (concat (map (\<lambda>q. page_events (addr ?s1) buf q @ [SleepUs 100]) ps))
                      (7 * length ps) ?s1)"
    by (rule Cons.IH) (use Cons.prems h in auto)
  then show ?case by (simp add: show_page_ok[OF p h(1)])
qed

section \<open>Full-frame transfer with failures\<close>

lemma no_True_replicate_prefix:
  "j \<le> n \<Longrightarrow> True \<notin> set (take j (replicate n False @ xs))"
  by (auto simp: min_def dest: in_set_takeD)

lemma drop_replicate_prefix:
  "j \<le> n \<Longrightarrow> drop j (replicate n False @ xs) = replicate (n - j) False @ xs"
  by simp

lemma pages_split: "p < 16 \<Longrightarrow> [0..<16] = [0..<p] @ p # [Suc p..<16]"
  by (metis less_imp_le_nat upt_add_eq_append upt_conv_Cons zero_le le_add_diff_inverse plus_nat.add_0)

lemma show_pages_single_failure:
  assumes len: "1024 \<le> length buf" and n: "n < 112"
    and sc: "schedule (i2c s) = replicate n False @ True # rest"
    and rest: "True \<notin> set rest"
  shows "\<exists>cnt. show_pages buf s =
           (Inr (), emit (concat (map (\<lambda>q. page_events (addr s) buf q @ [SleepUs 100]) [0..<n div 7]) @
                          failed_page_events (addr s) buf (n div 7) (n mod 7) @ [SleepMs 10] @
                          page_events (addr s) buf (n div 7) @
                          concat (map (\<lambda>q. page_events (addr s) buf q @ [SleepUs 100]) [Suc (n div 7)..<16]))
                      cnt s)"
proof -
  define p where "p = n div 7"
  define k where "k = n mod 7"
  have p: "p < 16" using n by (simp add: p_def)
  have k: "k < 7" by (simp add: k_def)
  have nk: "7 * p \<le> n" "n - 7 * p = k" by (simp_all add: p_def k_def minus_mult_div_eq_mod)
  have pb: "p * 64 + 64 \<le> length buf" using p len by simp
  let ?ev = "\<lambda>q. page_events (addr s) buf q @ [SleepUs 100]"
  let ?s1 = "emit (concat (map ?ev [0..<p])) (7 * length [0..<p]) s"
  have 1: "for_each [0..<p] (show_page buf) s = (Inr (), ?s1)"
    by (rule show_pages_ok) (use p len nk(1) in \<open>auto simp: sc no_True_replicate_prefix\<close>)
  have sc1: "schedule (i2c ?s1) = replicate k False @ True # rest"
    using nk by (simp add: sc)
  let ?e2 = "failed_page_events (addr s) buf p k @ [SleepMs 10] @ page_events (addr s) buf p"
  let ?s2 = "emit ?e2 (Suc k + 7) ?s1"
  have r7: "True \<notin> set (take 7 rest)" using rest by (auto dest: in_set_takeD)
  have 2: "show_page buf p ?s1 = (Inr (), ?s2)"
    using show_page_retry[OF p pb k sc1 r7] by simp
  have sc2: "schedule (i2c ?s2) = drop 7 rest"
  proof -
    have "schedule (i2c ?s2) = drop (Suc k + 7) (schedule (i2c ?s1))"
      by (simp del: emit_emit)
    also have "\<dots> = drop 7 (drop (Suc k) (replicate k False @ True # rest))"
      unfolding sc1 by (simp add: add.commute del: drop_append)
    finally show ?thesis by (simp only: drop_after_failure)
  qed
  let ?s3 = "emit (concat (map ?ev [Suc p..<16])) (7 * length [Suc p..<16]) ?s2"
  have 3: "for_each [Suc p..<16] (show_page buf) ?s2 = (Inr (), ?s3)"
  proof -
    have "True \<notin> set (take (7 * length [Suc p..<16]) (schedule (i2c ?s2)))"
      unfolding sc2 using rest by (auto dest!: in_set_takeD in_set_dropD)
    from show_pages_ok[OF _ len this] show ?thesis by simp
  qed
  have "show_pages buf s = (Inr (), ?s3)"
    unfolding show_pages_def pages_split[OF p]
    using 1 2 3 by (simp add: for_each_append del: emit_emit)
  then show ?thesis unfolding p_def[symmetric] k_def[symmetric] by (simp del: upt_Suc) blast
qed


lemma show_pages_double_failure:
  assumes len: "1024 \<le> length buf" and n: "n < 112" and m: "m < 7"
    and sc: "schedule (i2c s) = replicate n False @ True # replicate m False @ True # rest"
  shows "\<exists>cnt. show_pages buf s =
           (Inl OSError,
            emit (concat (map (\<lambda>q. page_events (addr s) buf q @ [SleepUs 100]) [0..<n div 7]) @
                  failed_page_events (addr s) buf (n div 7) (n mod 7) @ [SleepMs 10] @
                  failed_page_events (addr s) buf (n div 7) m)
              cnt s)"
proof -
  define p where "p = n div 7"
  define k where "k = n mod 7"
  have p: "p < 16" using n by (simp add: p_def)
  have k: "k < 7" by (simp add: k_def)
  have nk: "7 * p \<le> n" "n - 7 * p = k" by (simp_all add: p_def k_def minus_mult_div_eq_mod)
  have pb: "p * 64 + 64 \<le> length buf" using p len by simp
  let ?ev = "\<lambda>q. page_events (addr s) buf q @ [SleepUs 100]"
  let ?s1 = "emit (concat (map ?ev [0..<p])) (7 * length [0..<p]) s"
  have 1: "for_each [0..<p] (show_page buf) s = (Inr (), ?s1)"
    by (rule show_pages_ok) (use p len nk(1) in \<open>auto simp: sc no_True_replicate_prefix\<close>)
  have sc1: "schedule (i2c ?s1) = replicate k False @ True # replicate m False @ True # rest"
    using nk by (simp add: sc)
  let ?e2 = "failed_page_events (addr s) buf p k @ [SleepMs 10] @ failed_page_events (addr s) buf p m"
  let ?s2 = "emit ?e2 (Suc k + Suc m) ?s1"
  have 2: "show_page buf p ?s1 = (Inl OSError, ?s2)"
    using show_page_fatal[OF p pb k m sc1] by simp
  have "show_pages buf s = (Inl OSError, ?s2)"
    unfolding show_pages_def pages_split[OF p]
    using 1 2 by (simp add: for_each_append del: emit_emit)
  then show ?thesis unfolding p_def[symmetric] k_def[symmetric] by (simp del: upt_Suc) blast
qed

lemma show_pages_all_ok:
  assumes len: "1024 \<le> length buf" and ok: "True \<notin> set (take 112 (schedule (i2c s)))"
  shows "show_pages buf s =
           (Inr (), emit (concat (map (\<lambda>q. page_events (addr s) buf q @ [SleepUs 100]) [0..<16])) 112 s)"
  using show_pages_ok[of "[0..<16]" buf s] len ok by (simp add: show_pages_def)

lemma rotate_buffer_total:
  assumes "length (buffer s) = 1024" "physical_buffer s = Some pb" "length pb = 1024"
  shows "\<exists>out. rotate_buffer s = (Inr (), s\<lparr>physical_buffer := Some out\<rparr>) \<and> length out = 1024 \<and>
           ((\<forall>i<1024. buffer s ! i = 0) \<longrightarrow> out = replicate 1024 0)"
proof -
  define z :: "byte list" where "z = replicate 1024 0"
  have z: "length z = 1024" "\<And>j. j < 1024 \<Longrightarrow> z ! j = 0" by (simp_all add: z_def)
  have zpb: "replicate (length pb) 0 = z" using assms(3) by (simp add: z_def)
  let ?S = "{dst p c b |p c b. p < 8 \<and> c < 128 \<and> b < 8 \<and> bit (buffer s ! (p * 128 + c)) b}"
  obtain out where out: "rotate_loops (buffer s) z = (Inr (), out)" "bits_added ?S z out"
    using rotate_loops_added[OF z(1) assms(1)] by blast
  have len: "length out = 1024" using out(2) by (simp add: bits_added_def)
  have zero: "out = z" if "\<forall>i<1024. buffer s ! i = 0"
  proof (rule nth_equalityI)
    show "length out = length z" using len z by simp
  next
    fix j assume "j < length out"
    then have j: "j < 1024" using len by simp
    have S: "?S = {}"
    proof -
      have "\<not> bit (buffer s ! (p * 128 + c)) b" if "p < 8" "c < 128" for p c b
      proof -
        have "p * 128 + c < 1024" using that by simp
        then show ?thesis using \<open>\<forall>i<1024. buffer s ! i = 0\<close> by simp
      qed
      then show ?thesis by blast
    qed
    have "bits_added {} z out" using out(2) unfolding S .
    then have "bit (out ! j) k = bit (z ! j) k" for k
      using j by (simp add: bits_added_def)
    then show "out ! j = z ! j" by (simp add: bit_eq_iff)
  qed
  have "rotate_buffer s = (Inr (), s\<lparr>physical_buffer := Some out\<rparr>)"
    using out(1) assms(2) zpb by (simp add: rotate_buffer_def)
  then show ?thesis using len zero unfolding z_def by blast
qed

lemma show_as_show_pages:
  assumes "length (buffer s) = 1024"
    and "rotate s \<longrightarrow> (\<exists>pb. physical_buffer s = Some pb \<and> length pb = 1024)"
  shows "\<exists>t. show s = show_pages (frame t) t \<and> length (frame t) = 1024 \<and> i2c t = i2c s \<and>
           addr t = addr s \<and> buffer t = buffer s \<and> rotate t = rotate s \<and>
           width t = width s \<and> height t = height s \<and>
           (rotate s \<longrightarrow> (\<exists>pb. physical_buffer t = Some pb \<and> length pb = 1024)) \<and>
           (\<not> rotate s \<longrightarrow> physical_buffer t = physical_buffer s) \<and>
           ((\<forall>i<1024. buffer s ! i = 0) \<longrightarrow> frame t = replicate 1024 0)"
proof (cases "rotate s")
  case False
  have "buffer s = replicate 1024 0" if "\<forall>i<1024. buffer s ! i = 0"
    by (rule nth_equalityI) (use that assms(1) in auto)
  then show ?thesis using False assms(1) by (intro exI[of _ s]) (simp add: show_def frame_def)
next
  case True
  then obtain pb where pb: "physical_buffer s = Some pb" "length pb = 1024" using assms(2) by blast
  from rotate_buffer_total[OF assms(1) pb] obtain out where
    out: "rotate_buffer s = (Inr (), s\<lparr>physical_buffer := Some out\<rparr>)" "length out = 1024"
      "(\<forall>i<1024. buffer s ! i = 0) \<longrightarrow> out = replicate 1024 0"
    by blast
  show ?thesis using True out
    by (intro exI[of _ "s\<lparr>physical_buffer := Some out\<rparr>"]) (simp add: show_def frame_def)
qed

lemma show_one_page_failing:
  assumes "length (buffer s) = 1024"
    and "rotate s \<longrightarrow> (\<exists>pb. physical_buffer s = Some pb \<and> length pb = 1024)"
    and "n < 112"
  shows "(schedule (i2c s) = replicate n False @ True # rest \<and> True \<notin> set rest \<longrightarrow>
            (\<exists>s'. show s = (Inr (), s') \<and>
               trace (i2c s') = trace (i2c s) @
                 concat (map (\<lambda>q. page_events (addr s) (frame s') q @ [SleepUs 100]) [0..<n div 7]) @
                 failed_page_events (addr s) (frame s') (n div 7) (n mod 7) @ [SleepMs 10] @
                 page_events (addr s) (frame s') (n div 7) @
                 concat (map (\<lambda>q. page_events (addr s) (frame s') q @ [SleepUs 100])
                           [Suc (n div 7)..<16]))) \<and>
         (m < 7 \<and> schedule (i2c s) = replicate n False @ True # replicate m False @ True # rest \<longrightarrow>
            (\<exists>s'. show s = (Inl OSError, s') \<and>
               trace (i2c s') = trace (i2c s) @
                 concat (map (\<lambda>q. page_events (addr s) (frame s') q @ [SleepUs 100]) [0..<n div 7]) @
                 failed_page_events (addr s) (frame s') (n div 7) (n mod 7) @ [SleepMs 10] @
                 failed_page_events (addr s) (frame s') (n div 7) m))"
proof -
  from show_as_show_pages[OF assms(1,2)] obtain t where
    t: "show s = show_pages (frame t) t" "length (frame t) = 1024" "i2c t = i2c s" "addr t = addr s"
    by blast
  have len: "1024 \<le> length (frame t)" using t(2) by simp
  show ?thesis
  proof (intro conjI impI)
    assume a: "schedule (i2c s) = replicate n False @ True # rest \<and> True \<notin> set rest"
    then have sc: "schedule (i2c t) = replicate n False @ True # rest" using t(3) by simp
    from show_pages_single_failure[OF len assms(3) sc] a obtain cnt where
      "show_pages (frame t) t =
           (Inr (), emit (concat (map (\<lambda>q. page_events (addr t) (frame t) q @ [SleepUs 100]) [0..<n div 7]) @
                          failed_page_events (addr t) (frame t) (n div 7) (n mod 7) @ [SleepMs 10] @
                          page_events (addr t) (frame t) (n div 7) @
                          concat (map (\<lambda>q. page_events (addr t) (frame t) q @ [SleepUs 100]) [Suc (n div 7)..<16]))
                      cnt t)" (is "_ = (_, ?s')")
      by blast
    then show "\<exists>s'. show s = (Inr (), s') \<and>
               trace (i2c s') = trace (i2c s) @
                 concat (map (\<lambda>q. page_events (addr s) (frame s') q @ [SleepUs 100]) [0..<n div 7]) @
                 failed_page_events (addr s) (frame s') (n div 7) (n mod 7) @ [SleepMs 10] @
                 page_events (addr s) (frame s') (n div 7) @
                 concat (map (\<lambda>q. page_events (addr s) (frame s') q @ [SleepUs 100])
                           [Suc (n div 7)..<16])"
      using t(1,3,4) by (intro exI[of _ ?s']) (simp del: upt_Suc)
  next
    assume a: "m < 7 \<and> schedule (i2c s) = replicate n False @ True # replicate m False @ True # rest"
    then have sc: "schedule (i2c t) = replicate n False @ True # replicate m False @ True # rest"
      and m: "m < 7" using t(3) by simp_all
    from show_pages_double_failure[OF len assms(3) m sc] obtain cnt where
      "show_pages (frame t) t =
           (Inl OSError,
            emit (concat (map (\<lambda>q. page_events (addr t) (frame t) q @ [SleepUs 100]) [0..<n div 7]) @
                  failed_page_events (addr t) (frame t) (n div 7) (n mod 7) @ [SleepMs 10] @
                  failed_page_events (addr t) (frame t) (n div 7) m)
              cnt t)" (is "_ = (_, ?s')")
      by blast
    then show "\<exists>s'. show s = (Inl OSError, s') \<and>
               trace (i2c s') = trace (i2c s) @
                 concat (map (\<lambda>q. page_events (addr s) (frame s') q @ [SleepUs 100]) [0..<n div 7]) @
                 failed_page_events (addr s) (frame s') (n div 7) (n mod 7) @ [SleepMs 10] @
                 failed_page_events (addr s) (frame s') (n div 7) m"
      using t(1,3,4) by (intro exI[of _ ?s']) (simp del: upt_Suc)
  qed
qed


section \<open>Chunked data writes\<close>

lemma range_step_chunks:
  "0 < step \<Longrightarrow>
     concat (map (\<lambda>i. take step (drop i data)) (range_step i (length data) step)) = drop i data"
proof (induction i "length data" step rule: range_step.induct)
  case (1 start step)
  show ?case
  proof (cases "start < length data")
    case True
    have ih: "concat (map (\<lambda>i. take step (drop i data)) (range_step (start + step) (length data) step))
            = drop (start + step) data"
      using 1 True by simp
    have "range_step start (length data) step = start # range_step (start + step) (length data) step"
      using True 1(2) by (subst range_step.simps) simp
    then have "concat (map (\<lambda>i. take step (drop i data)) (range_step start (length data) step))
        = take step (drop start data) @
          concat (map (\<lambda>i. take step (drop i data)) (range_step (start + step) (length data) step))"
      by simp
    also have "\<dots> = take step (drop start data) @ drop (start + step) data"
      by (simp only: ih)
    also have "\<dots> = take step (drop start data) @ drop step (drop start data)"
      by (simp add: add.commute)
    also have "\<dots> = drop start data"
      by (rule append_take_drop_id)
    finally show ?thesis .
  next
    case False
    then show ?thesis by (subst range_step.simps) simp
  qed
qed

lemma range_step_members:
  "0 < step \<Longrightarrow> i \<in> set (range_step start stop step) \<Longrightarrow> i < stop"
proof (induction start stop step rule: range_step.induct)
  case (1 start stop step)
  from 1(3) have "start < stop \<and> (i = start \<or> i \<in> set (range_step (start + step) stop step))"
    by (subst (asm) range_step.simps) (auto split: if_splits)
  then show ?case using 1 by auto
qed

lemma write_data_steps:
  assumes "True \<notin> set (take (length ixs) (schedule (i2c s)))"
  shows "for_each ixs (\<lambda>i s. seq (on_bus (writeto (addr s) (f i))) (sleep_us 50) s) s =
           (Inr (), emit (concat (map (\<lambda>i. [Write (addr s) (f i), SleepUs 50]) ixs)) (length ixs) s)"
  using assms
proof (induction ixs arbitrary: s)
  case Nil
  then show ?case by (simp add: emit_def)
next
  case (Cons i ixs)
  have "True \<notin> set (take (1 + length ixs) (schedule (i2c s)))" using Cons.prems by simp
  from take_no_True[OF this]
  have h: "True \<notin> set (take 1 (schedule (i2c s)))"
    "True \<notin> set (take (length ixs) (drop 1 (schedule (i2c s))))" by auto
  let ?s1 = "emit [Write (addr s) (f i), SleepUs 50] 1 s"
  have "for_each ixs (\<lambda>i s. seq (on_bus (writeto (addr s) (f i))) (sleep_us 50) s) ?s1 =
           (Inr (), emit (concat (map (\<lambda>i. [Write (addr ?s1) (f i), SleepUs 50]) ixs)) (length ixs) ?s1)"
    by (rule Cons.IH) (use h(2) in simp)
  then show ?case using data_write_ok[OF h(1), of "addr s" "f i"] by simp
qed

text \<open>
  Claim C6. On a bus that does not fail, \<^verbatim>\<open>write_data\<close> returns normally for every payload;
  it makes one bus write per chunk, each chunk prefixed with the control byte \<open>0x40\<close> and
  followed by the 50 microsecond delay; the chunks are not empty, at most 16 bytes long, and
  in payload order they make up the payload. A payload of 64 bytes gives exactly four
  writes of 16 payload bytes. (\<open>emit evs n s\<close> is \<open>s\<close> after \<open>n\<close> bus writes that left the events
  \<open>evs\<close>.)
\<close>

theorem write_data_chunked:
  assumes "True \<notin> set (schedule (i2c s))"
  shows "\<exists>chunks. write_data data s =
            (Inr (), emit (concat (map (\<lambda>ch. [Write (addr s) (0x40 # ch), SleepUs 50]) chunks))
                       (length chunks) s) \<and>
          concat chunks = data \<and>
          (\<forall>ch\<in>set chunks. ch \<noteq> [] \<and> length ch \<le> 16) \<and>
          (length data = 64 \<longrightarrow> map length chunks = [16, 16, 16, 16])"
proof -
  define idx where "idx = range_step 0 (length data) 16"
  define chunks where "chunks = map (\<lambda>i. take 16 (drop i data)) idx"
  have ok: "True \<notin> set (take (length idx) (schedule (i2c s)))"
    using assms by (auto dest: in_set_takeD)
  have "write_data data s =
      (Inr (), emit (concat (map (\<lambda>i. [Write (addr s) ([0x40] @ take 16 (drop i data)), SleepUs 50]) idx))
                 (length idx) s)"
    unfolding write_data_def chunk_size_def idx_def[symmetric]
    by (rule write_data_steps[where f="\<lambda>i. [0x40] @ take 16 (drop i data)" and s=s and ixs=idx, OF ok])
  then have 1: "write_data data s =
      (Inr (), emit (concat (map (\<lambda>ch. [Write (addr s) (0x40 # ch), SleepUs 50]) chunks))
                 (length chunks) s)"
    by (simp add: chunks_def comp_def)
  have 2: "concat chunks = data"
    using range_step_chunks[of 16 data 0] by (simp add: chunks_def idx_def)
  have 3: "\<forall>ch\<in>set chunks. ch \<noteq> [] \<and> length ch \<le> 16"
  proof
    fix ch assume "ch \<in> set chunks"
    then obtain i where i: "i \<in> set idx" "ch = take 16 (drop i data)"
      by (auto simp: chunks_def)
    from range_step_members[of 16 i 0 "length data"] i(1) have "i < length data"
      by (simp add: idx_def)
    then show "ch \<noteq> [] \<and> length ch \<le> 16" using i(2) by simp
  qed
  have 4: "map length chunks = [16, 16, 16, 16]" if "length data = 64"
    using that by (simp add: chunks_def idx_def range_step_64)
  show ?thesis
    by (intro exI[of _ chunks] conjI impI) (fact 1, fact 2, fact 3, erule 4)
qed

theorem write_data_chunked_witness:
  "True \<notin> set (schedule (i2c (landscape_state []))) \<and>
   (\<exists>chunks. write_data (replicate 64 7) (landscape_state []) =
            (Inr (), emit (concat (map (\<lambda>ch. [Write (addr (landscape_state [])) (0x40 # ch), SleepUs 50]) chunks))
                       (length chunks) (landscape_state [])) \<and>
          concat chunks = replicate 64 7 \<and>
          (\<forall>ch\<in>set chunks. ch \<noteq> [] \<and> length ch \<le> 16) \<and>
          (length (replicate 64 (7::byte)) = 64 \<longrightarrow> map length chunks = [16, 16, 16, 16]))"
proof -
  have h: "True \<notin> set (schedule (i2c (landscape_state [])))" by (simp add: landscape_state_def)
  from write_data_chunked[OF h, of "replicate 64 7"] h show ?thesis by blast
qed

section \<open>Initialization\<close>

lemma cmds_ok:
  assumes "\<forall>c\<in>set cmds. 0 \<le> c \<and> c < 256"
    and "True \<notin> set (take (length cmds) (schedule (i2c s)))"
  shows "for_each cmds write_cmd s =
           (Inr (), emit (map (\<lambda>c. Write (addr s) [0x80, word_of_int c]) cmds) (length cmds) s)"
  using assms
proof (induction cmds arbitrary: s)
  case Nil
  then show ?case by (simp add: emit_def)
next
  case (Cons c cmds)
  have "True \<notin> set (take (1 + length cmds) (schedule (i2c s)))" using Cons.prems by simp
  from take_no_True[OF this]
  have h: "True \<notin> set (take 1 (schedule (i2c s)))"
    "True \<notin> set (take (length cmds) (drop 1 (schedule (i2c s))))" by auto
  have c: "0 \<le> c" "c < 256" using Cons.prems(1) by auto
  let ?s1 = "emit [Write (addr s) [0x80, word_of_int c]] 1 s"
  have "for_each cmds write_cmd ?s1 =
           (Inr (), emit (map (\<lambda>c. Write (addr ?s1) [0x80, word_of_int c]) cmds) (length cmds) ?s1)"
    by (rule Cons.IH) (use Cons.prems(1) h(2) in auto)
  then show ?case using write_cmd_ok[OF c h(1)] by simp
qed

lemma cmds_fail:
  assumes "\<forall>c\<in>set cmds. 0 \<le> c \<and> c < 256" "n < length cmds"
    and "schedule (i2c s) = replicate n False @ True # rest"
  shows "for_each cmds write_cmd s =
           (Inl OSError,
            emit (map (\<lambda>c. Write (addr s) [0x80, word_of_int c]) (take n cmds) @
                  [WriteFailed (addr s) [0x80, word_of_int (cmds ! n)]]) (Suc n) s)"
  using assms
proof (induction cmds arbitrary: s n)
  case Nil
  then show ?case by simp
next
  case (Cons c cmds)
  have c: "0 \<le> c" "c < 256" using Cons.prems(1) by auto
  show ?case
  proof (cases n)
    case 0
    then have "take 1 (schedule (i2c s)) = [True]" using Cons.prems(3) by simp
    from write_cmd_fail[OF c this] 0 show ?thesis by simp
  next
    case (Suc j)
    then have h: "True \<notin> set (take 1 (schedule (i2c s)))" using Cons.prems(3) by simp
    let ?s1 = "emit [Write (addr s) [0x80, word_of_int c]] 1 s"
    have sc: "schedule (i2c ?s1) = replicate j False @ True # rest"
      using Cons.prems(3) Suc by simp
    have "for_each cmds write_cmd ?s1 =
           (Inl OSError,
            emit (map (\<lambda>c. Write (addr ?s1) [0x80, word_of_int c]) (take j cmds) @
                  [WriteFailed (addr ?s1) [0x80, word_of_int (cmds ! j)]]) (Suc j) ?s1)"
      by (rule Cons.IH[OF _ _ sc]) (use Cons.prems(1,2) Suc in auto)
    then show ?thesis using write_cmd_ok[OF c h] Suc by simp
  qed
qed

lemma init_commands_bytes:
  "\<forall>c\<in>set init_commands. 0 \<le> c \<and> c < 256"
  "length init_commands = 21"
  "map word_of_int init_commands = init_bytes"
  by (simp_all add: init_commands_def init_bytes_def SET_DISP_def SET_DISP_START_LINE_def
        SET_CONTRAST_def SET_MEM_ADDR_MODE_def SET_SEG_REMAP_def SET_SCAN_DIR_def
        SET_MUX_RATIO_def SET_DISP_OFFSET_def SET_DISP_CLK_DIV_def SET_PRECHARGE_def
        SET_VCOM_DESEL_def SET_ENTIRE_ON_def SET_NORM_INV_def)


lemma init_fields_simps [simp]:
  "i2c (init_fields b a rot v) = b"
  "addr (init_fields b a rot v) = a"
  "rotate (init_fields b a rot v) = rot"
  "buffer (init_fields b a rot v) = replicate 1024 0"
  "physical_buffer (init_fields b a rot v) = (if rot then Some (replicate 1024 0) else None)"
  "width (init_fields b a rot v) = (if rot then 128 else 64)"
  "height (init_fields b a rot v) = (if rot then 64 else 128)"
  by (simp_all add: init_fields_def Let_def)

lemma fb_fill_simps [simp]:
  "i2c (fb_fill c s) = i2c s" "addr (fb_fill c s) = addr s" "rotate (fb_fill c s) = rotate s"
  "physical_buffer (fb_fill c s) = physical_buffer s"
  "width (fb_fill c s) = width s" "height (fb_fill c s) = height s"
  "length (buffer (fb_fill c s)) = length (buffer s)"
  "i < length (buffer s) \<Longrightarrow> buffer (fb_fill 0 s) ! i = 0"
  by (simp_all add: fb_fill_def)

lemma init_display_ok:
  assumes "True \<notin> set (take 21 (schedule (i2c s)))"
  shows "init_display s =
           show (fb_fill 0 (emit (map (\<lambda>c. Write (addr s) [0x80, c]) init_bytes) 21 s))"
proof -
  have "for_each init_commands write_cmd s =
      (Inr (), emit (map (\<lambda>c. Write (addr s) [0x80, word_of_int c]) init_commands) (length init_commands) s)"
    by (rule cmds_ok) (use assms init_commands_bytes in auto)
  moreover have "map (\<lambda>c. Write (addr s) [0x80, word_of_int c]) init_commands
      = map (\<lambda>c. Write (addr s) [0x80, c]) init_bytes"
    unfolding init_commands_bytes(3)[symmetric] by (simp add: comp_def)
  ultimately show ?thesis
    by (simp add: init_display_def seq_def init_commands_bytes(2))
qed

lemma init_display_fail:
  assumes "n < 21" "schedule (i2c s) = replicate n False @ True # rest"
  shows "init_display s =
           (Inl OSError, emit (map (\<lambda>c. Write (addr s) [0x80, c]) (take n init_bytes) @
                               [WriteFailed (addr s) [0x80, init_bytes ! n]]) (Suc n) s)"
proof -
  have n: "n < length init_commands" using assms(1) by (simp add: init_commands_bytes(2))
  have "for_each init_commands write_cmd s =
      (Inl OSError,
            emit (map (\<lambda>c. Write (addr s) [0x80, word_of_int c]) (take n init_commands) @
                  [WriteFailed (addr s) [0x80, word_of_int (init_commands ! n)]]) (Suc n) s)"
    by (rule cmds_fail[OF _ n assms(2)]) (use init_commands_bytes in auto)
  moreover have "map (\<lambda>c. Write (addr s) [0x80, word_of_int c]) (take n init_commands)
      = map (\<lambda>c. Write (addr s) [0x80, c]) (take n init_bytes)"
    unfolding init_commands_bytes(3)[symmetric] by (simp add: comp_def take_map)
  moreover have "word_of_int (init_commands ! n) = init_bytes ! n"
    unfolding init_commands_bytes(3)[symmetric] using n by simp
  ultimately show ?thesis
    by (simp add: init_display_def seq_def)
qed


lemma buffer_fb_fill_0: "buffer (fb_fill 0 s) = replicate (length (buffer s)) 0"
  by (simp add: fb_fill_def map_replicate_const)

lemma init_reaches_show:
  assumes "True \<notin> set (take 21 (schedule b))"
  shows "\<exists>t. init b a rot v = show_pages (frame t) t \<and> frame t = replicate 1024 0 \<and>
           schedule (i2c t) = drop 21 (schedule b) \<and>
           trace (i2c t) = trace b @ map (\<lambda>c. Write a [0x80, c]) init_bytes \<and>
           addr t = a \<and> buffer t = replicate 1024 0 \<and> rotate t = rot"
proof -
  let ?s0 = "init_fields b a rot v"
  let ?s1 = "fb_fill 0 (emit (map (\<lambda>c. Write a [0x80, c]) init_bytes) 21 ?s0)"
  have i: "init b a rot v = show ?s1"
    unfolding init_def using init_display_ok[of ?s0] assms by simp
  have b1: "buffer ?s1 = replicate 1024 0" by (simp add: buffer_fb_fill_0)
  then have l: "length (buffer ?s1) = 1024" by simp
  have r: "rotate ?s1 \<longrightarrow> (\<exists>pb. physical_buffer ?s1 = Some pb \<and> length pb = 1024)" by simp
  have z: "\<forall>i<1024. buffer ?s1 ! i = 0" unfolding b1 by simp
  from show_as_show_pages[OF l r] z obtain t where
    t: "show ?s1 = show_pages (frame t) t" "i2c t = i2c ?s1" "addr t = addr ?s1"
      "buffer t = buffer ?s1" "rotate t = rotate ?s1" "frame t = replicate 1024 0"
    by blast
  show ?thesis
    by (rule exI[of _ t]) (simp add: i t b1)
qed

lemma init_bytes_list:
  "init_bytes = [0xAE, 0xDC, 0x00, 0x81, 0x2F, 0x20, 0xA0, 0xC0, 0xA8, 0x7F, 0xD3, 0x60, 0xD5, 0x51,
      0xD9, 0x22, 0xDB, 0x35, 0xA4, 0xA6, 0xAF]"
  by (simp add: init_bytes_def)

text \<open>
  Claim C7. On a bus that does not fail, construction returns normally, in either
  orientation, and the bus trace it leaves is: the 21 command writes of the initialization
  sequence in the fixed order (display off \<open>0xAE\<close>, ..., display on \<open>0xAF\<close>), each as
  \<open>[0x80, byte]\<close>; then, for each of the pages 0 to 15 in ascending order, the page
  address \<open>0xB0 | page\<close>, column low \<open>0x00\<close>, column high \<open>0x10\<close> and the 64 bytes of that
  page of the active buffer in four data writes. The logical buffer and the buffer sent are
  cleared.
\<close>

theorem init_sequence:
  assumes "True \<notin> set (schedule b)"
  shows "\<exists>s'. init b a rot v = (Inr (), s') \<and> buffer s' = replicate 1024 0 \<and>
           frame s' = replicate 1024 0 \<and>
           trace (i2c s') = trace b @
             map (\<lambda>c. Write a [0x80, c])
               [0xAE, 0xDC, 0x00, 0x81, 0x2F, 0x20, 0xA0, 0xC0, 0xA8, 0x7F, 0xD3, 0x60, 0xD5, 0x51,
                0xD9, 0x22, 0xDB, 0x35, 0xA4, 0xA6, 0xAF] @
             concat (map (\<lambda>page.
                 [Write a [0x80, word_of_int (0xB0 OR int page)],
                  Write a [0x80, 0x00],
                  Write a [0x80, 0x10],
                  Write a (0x40 # take 16 (drop (page * 64) (frame s'))), SleepUs 50,
                  Write a (0x40 # take 16 (drop (page * 64 + 16) (frame s'))), SleepUs 50,
                  Write a (0x40 # take 16 (drop (page * 64 + 32) (frame s'))), SleepUs 50,
                  Write a (0x40 # take 16 (drop (page * 64 + 48) (frame s'))), SleepUs 50,
                  SleepUs 100]) [0..<16])"
proof -
  have ok21: "True \<notin> set (take 21 (schedule b))" using assms by (auto dest: in_set_takeD)
  from init_reaches_show[OF ok21, of a rot v] obtain t where
    t: "init b a rot v = show_pages (frame t) t" "frame t = replicate 1024 0"
      "schedule (i2c t) = drop 21 (schedule b)"
      "trace (i2c t) = trace b @ map (\<lambda>c. Write a [0x80, c]) init_bytes"
      "addr t = a" "buffer t = replicate 1024 0"
    by blast
  have len: "1024 \<le> length (frame t)" by (simp add: t(2))
  have ok: "True \<notin> set (take 112 (schedule (i2c t)))"
    unfolding t(3) using assms by (auto dest!: in_set_takeD in_set_dropD)
  let ?s' = "emit (concat (map (\<lambda>q. page_events (addr t) (frame t) q @ [SleepUs 100]) [0..<16])) 112 t"
  have r: "init b a rot v = (Inr (), ?s')"
    unfolding t(1) by (rule show_pages_all_ok[OF len ok])
  show ?thesis
    by (rule exI[of _ ?s'])
       (simp add: r t(4,5,6) page_events_unfold init_bytes_list del: upt_Suc, simp add: t(2))
qed


theorem init_sequence_witness:
  "True \<notin> set (schedule \<lparr>schedule = [], trace = []\<rparr>) \<and>
   fst (init \<lparr>schedule = [], trace = []\<rparr> 0x3C True False) = Inr () \<and>
   buffer (snd (init \<lparr>schedule = [], trace = []\<rparr> 0x3C True False)) = replicate 1024 0"
proof -
  have h: "True \<notin> set (schedule \<lparr>schedule = [], trace = []\<rparr>)" by simp
  from init_sequence[OF h, of "0x3C" True False] h show ?thesis by fastforce
qed

lemma init_single_failure:
  assumes a: "n < 112 \<and> schedule b = replicate (21 + n) False @ True # rest \<and> True \<notin> set rest"
  shows "\<exists>s'. init b a rot v = (Inr (), s') \<and>
         trace (i2c s') = trace b @ map (\<lambda>c. Write a [0x80, c]) init_bytes @
           concat (map (\<lambda>q. page_events a (frame s') q @ [SleepUs 100]) [0..<n div 7]) @
           failed_page_events a (frame s') (n div 7) (n mod 7) @ [SleepMs 10] @
           page_events a (frame s') (n div 7) @
           concat (map (\<lambda>q. page_events a (frame s') q @ [SleepUs 100]) [Suc (n div 7)..<16])"
proof -
  from a have ok21: "True \<notin> set (take 21 (schedule b))" by (simp add: no_True_replicate_prefix)
  from init_reaches_show[OF ok21, of a rot v] obtain t where
    t: "init b a rot v = show_pages (frame t) t" "frame t = replicate 1024 0"
      "schedule (i2c t) = drop 21 (schedule b)"
      "trace (i2c t) = trace b @ map (\<lambda>c. Write a [0x80, c]) init_bytes"
      "addr t = a"
    by blast
  have len: "1024 \<le> length (frame t)" by (simp add: t(2))
  have sc: "schedule (i2c t) = replicate n False @ True # rest"
    unfolding t(3) using a by simp
  from show_pages_single_failure[OF len _ sc] a obtain cnt where
    "show_pages (frame t) t =
           (Inr (), emit (concat (map (\<lambda>q. page_events (addr t) (frame t) q @ [SleepUs 100]) [0..<n div 7]) @
                          failed_page_events (addr t) (frame t) (n div 7) (n mod 7) @ [SleepMs 10] @
                          page_events (addr t) (frame t) (n div 7) @
                          concat (map (\<lambda>q. page_events (addr t) (frame t) q @ [SleepUs 100]) [Suc (n div 7)..<16]))
                      cnt t)" (is "_ = (_, ?s')")
    by blast
  then show ?thesis
    using t(1,4,5) by (intro exI[of _ ?s']) (simp del: upt_Suc)
qed

lemma init_one_page_failing:
  "(n < 21 \<and> schedule b = replicate n False @ True # rest \<longrightarrow>
      (\<exists>s'. init b a rot v = (Inl OSError, s') \<and>
         trace (i2c s') = trace b @ map (\<lambda>c. Write a [0x80, c]) (take n init_bytes) @
                          [WriteFailed a [0x80, init_bytes ! n]])) \<and>
   (n < 112 \<and> schedule b = replicate (21 + n) False @ True # rest \<and> True \<notin> set rest \<longrightarrow>
      (\<exists>s'. init b a rot v = (Inr (), s') \<and>
         trace (i2c s') = trace b @ map (\<lambda>c. Write a [0x80, c]) init_bytes @
           concat (map (\<lambda>q. page_events a (frame s') q @ [SleepUs 100]) [0..<n div 7]) @
           failed_page_events a (frame s') (n div 7) (n mod 7) @ [SleepMs 10] @
           page_events a (frame s') (n div 7) @
           concat (map (\<lambda>q. page_events a (frame s') q @ [SleepUs 100]) [Suc (n div 7)..<16]))) \<and>
   (n < 112 \<and> m < 7 \<and>
    schedule b = replicate (21 + n) False @ True # replicate m False @ True # rest \<longrightarrow>
      (\<exists>s'. init b a rot v = (Inl OSError, s') \<and>
         trace (i2c s') = trace b @ map (\<lambda>c. Write a [0x80, c]) init_bytes @
           concat (map (\<lambda>q. page_events a (frame s') q @ [SleepUs 100]) [0..<n div 7]) @
           failed_page_events a (frame s') (n div 7) (n mod 7) @ [SleepMs 10] @
           failed_page_events a (frame s') (n div 7) m))"
proof (intro conjI impI)
  assume a: "n < 21 \<and> schedule b = replicate n False @ True # rest"
  then have sc: "schedule (i2c (init_fields b a rot v)) = replicate n False @ True # rest" by simp
  from a init_display_fail[OF _ sc] show "\<exists>s'. init b a rot v = (Inl OSError, s') \<and>
         trace (i2c s') = trace b @ map (\<lambda>c. Write a [0x80, c]) (take n init_bytes) @
                          [WriteFailed a [0x80, init_bytes ! n]]"
    by (simp add: init_def)
next
  assume a: "n < 112 \<and> schedule b = replicate (21 + n) False @ True # rest \<and> True \<notin> set rest"
  then show "\<exists>s'. init b a rot v = (Inr (), s') \<and>
         trace (i2c s') = trace b @ map (\<lambda>c. Write a [0x80, c]) init_bytes @
           concat (map (\<lambda>q. page_events a (frame s') q @ [SleepUs 100]) [0..<n div 7]) @
           failed_page_events a (frame s') (n div 7) (n mod 7) @ [SleepMs 10] @
           page_events a (frame s') (n div 7) @
           concat (map (\<lambda>q. page_events a (frame s') q @ [SleepUs 100]) [Suc (n div 7)..<16])"
    by (rule init_single_failure)
next
  assume a: "n < 112 \<and> m < 7 \<and>
    schedule b = replicate (21 + n) False @ True # replicate m False @ True # rest"
  then have ok21: "True \<notin> set (take 21 (schedule b))" by (simp add: no_True_replicate_prefix)
  from init_reaches_show[OF ok21, of a rot v] obtain t where
    t: "init b a rot v = show_pages (frame t) t" "frame t = replicate 1024 0"
      "schedule (i2c t) = drop 21 (schedule b)"
      "trace (i2c t) = trace b @ map (\<lambda>c. Write a [0x80, c]) init_bytes"
      "addr t = a"
    by blast
  have len: "1024 \<le> length (frame t)" by (simp add: t(2))
  have sc: "schedule (i2c t) = replicate n False @ True # replicate m False @ True # rest"
    unfolding t(3) using a by simp
  from show_pages_double_failure[OF len _ _ sc] a obtain cnt where
    "show_pages (frame t) t =
           (Inl OSError,
            emit (concat (map (\<lambda>q. page_events (addr t) (frame t) q @ [SleepUs 100]) [0..<n div 7]) @
                  failed_page_events (addr t) (frame t) (n div 7) (n mod 7) @ [SleepMs 10] @
                  failed_page_events (addr t) (frame t) (n div 7) m)
              cnt t)" (is "_ = (_, ?s')")
    by blast
  then show "\<exists>s'. init b a rot v = (Inl OSError, s') \<and>
         trace (i2c s') = trace b @ map (\<lambda>c. Write a [0x80, c]) init_bytes @
           concat (map (\<lambda>q. page_events a (frame s') q @ [SleepUs 100]) [0..<n div 7]) @
           failed_page_events a (frame s') (n div 7) (n mod 7) @ [SleepMs 10] @
           failed_page_events a (frame s') (n div 7) m"
    using t(1,4,5) by (intro exI[of _ ?s']) (simp del: upt_Suc)
qed


text \<open>
  Claim C8, as stated, fails: when write number 21 of the construction (the first write of
  the full-frame transfer) fails, the error is caught, the page is retried after 10 ms and
  construction succeeds.
\<close>

theorem init_error_not_fatal:
  "fst (init \<lparr>schedule = replicate 21 False @ [True], trace = []\<rparr> 0x3C True False) = Inr () \<and>
   WriteFailed 0x3C [0x80, 0xB0]
     \<in> set (trace (i2c (snd (init \<lparr>schedule = replicate 21 False @ [True], trace = []\<rparr> 0x3C True False)))) \<and>
   SleepMs 10
     \<in> set (trace (i2c (snd (init \<lparr>schedule = replicate 21 False @ [True], trace = []\<rparr> 0x3C True False))))"
proof -
  let ?b = "\<lparr>schedule = replicate 21 False @ [True], trace = []\<rparr>"
  have "(0::nat) < 112 \<and> schedule ?b = replicate (21 + 0) False @ True # [] \<and> True \<notin> set []"
    by simp
  from init_single_failure[OF this, of "0x3C" True False] obtain s' where
    s': "init ?b 0x3C True False = (Inr (), s')"
      "trace (i2c s') = trace ?b @ map (\<lambda>c. Write 0x3C [0x80, c]) init_bytes @
           concat (map (\<lambda>q. page_events 0x3C (frame s') q @ [SleepUs 100]) [0..<0 div 7]) @
           failed_page_events 0x3C (frame s') (0 div 7) (0 mod 7) @ [SleepMs 10] @
           page_events 0x3C (frame s') (0 div 7) @
           concat (map (\<lambda>q. page_events 0x3C (frame s') q @ [SleepUs 100]) [Suc (0 div 7)..<16])"
    by blast
  have "failed_page_events 0x3C (frame s') 0 0 = [WriteFailed 0x3C [0x80, 0xB0]]"
    by (simp add: failed_page_events_def page_tx_unfold)
  with s' show ?thesis by simp
qed

section \<open>The buffer invariant\<close>

lemma buffers_ok_i2c [simp]: "buffers_ok (s\<lparr>i2c := b\<rparr>) = buffers_ok s"
  by (simp add: buffers_ok_def)

lemma buffers_ok_emit [simp]: "buffers_ok (emit evs n s) = buffers_ok s"
  by (simp add: emit_def)

lemma on_bus_ok: "buffers_ok s \<Longrightarrow> buffers_ok (snd (on_bus f s))"
  by (simp add: on_bus_def split: prod.splits)

lemma sleep_ok: "buffers_ok s \<Longrightarrow> buffers_ok (snd (sleep_us n s))"
  "buffers_ok s \<Longrightarrow> buffers_ok (snd (sleep_ms n s))"
  by (simp_all add: sleep_emit)

lemma write_cmd_buffers_ok: "buffers_ok s \<Longrightarrow> buffers_ok (snd (write_cmd c s))"
  by (simp add: write_cmd_def on_bus_ok)

lemma seq_ok:
  assumes "\<And>s. buffers_ok s \<Longrightarrow> buffers_ok (snd (f s))"
    and "\<And>s. buffers_ok s \<Longrightarrow> buffers_ok (snd (g s))"
    and "buffers_ok s"
  shows "buffers_ok (snd (seq f g s))"
proof (cases "f s")
  case (Pair r s')
  then have "buffers_ok s'" using assms(1)[OF assms(3)] by simp
  then show ?thesis using Pair assms(2)[of s'] by (cases r) (simp_all add: seq_def)
qed

lemma try_ok:
  assumes "\<And>s. buffers_ok s \<Longrightarrow> buffers_ok (snd (f s))"
    and "\<And>s. buffers_ok s \<Longrightarrow> buffers_ok (snd (h s))"
    and "buffers_ok s"
  shows "buffers_ok (snd (try_except_OSError f h s))"
proof (cases "f s")
  case (Pair r s')
  then have "buffers_ok s'" using assms(1)[OF assms(3)] by simp
  then show ?thesis using Pair assms(2)[of s']
    by (cases r) (simp_all add: try_except_OSError_def split: error.splits)
qed

lemma for_each_ok:
  assumes "\<And>x s. buffers_ok s \<Longrightarrow> buffers_ok (snd (body x s))"
    and "buffers_ok s"
  shows "buffers_ok (snd (for_each xs body s))"
  using assms(2)
proof (induction xs arbitrary: s)
  case Nil
  then show ?case by simp
next
  case (Cons x xs)
  obtain r s' where b: "body x s = (r, s')" by (cases "body x s") auto
  then have "buffers_ok s'" using assms(1)[OF Cons.prems, of x] by simp
  then show ?case using b Cons.IH[of s'] by (cases r) simp_all
qed

lemma write_data_buffers_ok: "buffers_ok s \<Longrightarrow> buffers_ok (snd (write_data d s))"
  unfolding write_data_def
  by (rule for_each_ok) (auto intro!: seq_ok on_bus_ok sleep_ok)

lemma send_page_buffers_ok: "buffers_ok s \<Longrightarrow> buffers_ok (snd (send_page buf p s))"
  unfolding send_page_def
  by (intro seq_ok write_cmd_buffers_ok write_data_buffers_ok)

lemma show_page_buffers_ok: "buffers_ok s \<Longrightarrow> buffers_ok (snd (show_page buf p s))"
  unfolding show_page_def
  by (intro try_ok seq_ok send_page_buffers_ok sleep_ok)

lemma show_pages_buffers_ok: "buffers_ok s \<Longrightarrow> buffers_ok (snd (show_pages buf s))"
  unfolding show_pages_def by (rule for_each_ok) (rule show_page_buffers_ok)


lemma rotate_buffer_buffers_ok:
  assumes "buffers_ok s"
  shows "buffers_ok (snd (rotate_buffer s))"
proof (cases "physical_buffer s")
  case None
  then show ?thesis using assms by (simp add: rotate_buffer_def)
next
  case (Some pb)
  then have l: "length (buffer s) = 1024" "length pb = 1024"
    using assms by (simp_all add: buffers_ok_def)
  from rotate_buffer_total[OF l(1) Some l(2)] obtain out where
    "rotate_buffer s = (Inr (), s\<lparr>physical_buffer := Some out\<rparr>)" "length out = 1024"
    by blast
  then show ?thesis using assms Some by (simp add: buffers_ok_def)
qed

lemma show_buffers_ok:
  assumes "buffers_ok s"
  shows "buffers_ok (snd (show s))"
proof (cases "rotate s")
  case False
  then show ?thesis using assms by (simp add: show_def show_pages_buffers_ok)
next
  case True
  obtain r s' where rb: "rotate_buffer s = (r, s')" by (cases "rotate_buffer s") auto
  then have ok: "buffers_ok s'" using rotate_buffer_buffers_ok[OF assms] by simp
  show ?thesis using True rb ok
    by (cases r) (auto simp: show_def show_pages_buffers_ok split: option.splits)
qed

lemma fb_setpixel_buffers_ok: "buffers_ok s \<Longrightarrow> buffers_ok (fb_setpixel x y c s)"
  by (simp add: fb_setpixel_def buffers_ok_def Let_def)

lemma fold_setpixel_buffers_ok:
  "buffers_ok s \<Longrightarrow> buffers_ok (fold (\<lambda>(px, py). fb_setpixel px py c) pts s)"
  by (induction pts arbitrary: s) (auto simp: fb_setpixel_buffers_ok)

lemma fb_fill_buffers_ok: "buffers_ok s \<Longrightarrow> buffers_ok (fb_fill c s)"
  by (simp add: fb_fill_def buffers_ok_def)

lemma apply_prim_buffers_ok: "buffers_ok s \<Longrightarrow> buffers_ok (apply_prim lp p s)"
  by (cases p) (simp_all add: fb_setpixel_buffers_ok fb_fill_rect_def fold_setpixel_buffers_ok
      fb_fill_buffers_ok)

lemma draw_buffers_ok: "buffers_ok s \<Longrightarrow> buffers_ok (draw lp ps s)"
  unfolding draw_def by (induction ps arbitrary: s) (auto simp: apply_prim_buffers_ok)

lemma apply_op_buffers_ok:
  assumes "buffers_ok s" "apply_op lp fl oper s = Some (res, s')"
  shows "buffers_ok s'"
proof (cases oper)
  case OpShow
  then show ?thesis using assms show_buffers_ok[of s] by auto
next
  case (OpContrast v)
  have "buffers_ok (snd (contrast v s))"
    unfolding contrast_def by (intro seq_ok write_cmd_buffers_ok assms(1))
  then show ?thesis using assms OpContrast by auto
next
  case (OpInvert i)
  have "buffers_ok (snd (invert i s))"
    unfolding invert_def by (intro seq_ok write_cmd_buffers_ok sleep_ok assms(1))
  then show ?thesis using assms OpInvert by auto
next
  case OpPoweroff
  have "buffers_ok (snd (poweroff s))"
    unfolding poweroff_def by (rule write_cmd_buffers_ok[OF assms(1)])
  then show ?thesis using assms OpPoweroff by auto
next
  case OpPoweron
  have "buffers_ok (snd (poweron s))"
    unfolding poweron_def by (rule write_cmd_buffers_ok[OF assms(1)])
  then show ?thesis using assms OpPoweron by auto
qed (use assms draw_buffers_ok[of s] in \<open>auto split: option.splits\<close>)

lemma init_fields_buffers_ok: "buffers_ok (init_fields b a rot v)"
  by (simp add: buffers_ok_def)

lemma init_buffers_ok: "buffers_ok (snd (init b a rot v))"
  unfolding init_def init_display_def
proof (intro seq_ok)
  show "buffers_ok (init_fields b a rot v)" by (rule init_fields_buffers_ok)
next
  fix s assume "buffers_ok s"
  then show "buffers_ok (snd (for_each init_commands write_cmd s))"
    by (intro for_each_ok write_cmd_buffers_ok)
next
  fix s assume "buffers_ok s"
  then show "buffers_ok (snd (Inr (), fb_fill 0 s))" by (simp add: fb_fill_buffers_ok)
next
  fix s assume "buffers_ok s"
  then show "buffers_ok (snd (show s))" by (rule show_buffers_ok)
qed

text \<open>
  Claim C9. In every state of a driver instance, after its construction and after every
  public operation that returns (normally or with an exception), the logical buffer has
  \<open>width * height / 8 = 1024\<close> bytes, the physical buffer exists exactly when the
  orientation is landscape, and when it exists it has 1024 bytes.
\<close>

theorem buffer_lengths_invariant:
  assumes "reachable lp fl s"
  shows "length (buffer s) = width s * height s div 8 \<and> length (buffer s) = 1024 \<and>
         (physical_buffer s \<noteq> None) = rotate s \<and>
         (\<forall>pb. physical_buffer s = Some pb \<longrightarrow> length pb = 1024)"
proof -
  from assms have "buffers_ok s"
  proof induction
    case (constructed b a rot v s)
    then show ?case using init_buffers_ok[of b a rot v] by simp
  next
    case (operated s oper res s')
    then show ?case using apply_op_buffers_ok by blast
  qed
  then show ?thesis by (simp add: buffers_ok_def)
qed


lemma init_ok:
  assumes "True \<notin> set (schedule b)"
  shows "fst (init b a rot v) = Inr ()"
proof -
  have ok21: "True \<notin> set (take 21 (schedule b))" using assms by (auto dest: in_set_takeD)
  from init_reaches_show[OF ok21, of a rot v] obtain t where
    t: "init b a rot v = show_pages (frame t) t" "frame t = replicate 1024 0"
      "schedule (i2c t) = drop 21 (schedule b)"
    by blast
  have len: "1024 \<le> length (frame t)" by (simp add: t(2))
  have ok: "True \<notin> set (take 112 (schedule (i2c t)))"
    unfolding t(3) using assms by (auto dest!: in_set_takeD in_set_dropD)
  show ?thesis unfolding t(1) by (simp add: show_pages_all_ok[OF len ok])
qed

theorem buffer_lengths_invariant_witness:
  "reachable (\<lambda>x0 y0 x1 y1. []) \<lparr>half_width = \<lambda>a b y. Inr 0, region2_start = \<lambda>b2 x a2 y. Inr (), add_int = \<lambda>d n. Inr (), positive = \<lambda>d. False\<rparr> (snd (init \<lparr>schedule = [], trace = []\<rparr> 0x3C True False)) \<and>
   length (buffer (snd (init \<lparr>schedule = [], trace = []\<rparr> 0x3C True False))) = 1024 \<and>
   (physical_buffer (snd (init \<lparr>schedule = [], trace = []\<rparr> 0x3C True False)) \<noteq> None)
     = rotate (snd (init \<lparr>schedule = [], trace = []\<rparr> 0x3C True False))"
proof -
  let ?b = "\<lparr>schedule = [], trace = []\<rparr>"
  let ?s = "snd (init ?b 0x3C True False)"
  have "fst (init ?b 0x3C True False) = Inr ()" by (rule init_ok) simp
  then have "init ?b 0x3C True False = (Inr (), ?s)" by (metis prod.collapse)
  then have r: "reachable (\<lambda>x0 y0 x1 y1. []) \<lparr>half_width = \<lambda>a b y. Inr 0, region2_start = \<lambda>b2 x a2 y. Inr (), add_int = \<lambda>d n. Inr (), positive = \<lambda>d. False\<rparr> ?s" by (rule reachable.constructed)
  from buffer_lengths_invariant[OF r] r show ?thesis by blast
qed

section \<open>The retry policy, for every schedule of failures\<close>

lemma first_failure_None: "first_failure sc = None \<Longrightarrow> True \<notin> set (take 7 sc)"
  by (simp add: first_failure_def split: if_splits)

lemma first_failure_Some:
  assumes "first_failure sc = Some k"
  shows "k < 7 \<and> sc = replicate k False @ True # drop (Suc k) sc"
proof -
  let ?xs = "take 7 sc"
  let ?tw = "takeWhile Not ?xs"
  let ?dw = "dropWhile Not ?xs"
  from assms have t: "True \<in> set ?xs" and k: "k = length ?tw"
    by (auto simp: first_failure_def split: if_splits)
  have dw: "?dw \<noteq> []" using t by (auto simp: dropWhile_eq_Nil_conv)
  then have "\<not> Not (hd ?dw)" by (rule hd_dropWhile)
  then have hd: "hd ?dw = True" by simp
  have tw: "?tw = replicate k False"
  proof -
    have "\<forall>x\<in>set ?tw. x = False" by (auto dest: set_takeWhileD)
    then show ?thesis unfolding k by (simp add: replicate_length_same)
  qed
  have xs: "?xs = replicate k False @ True # tl ?dw"
  proof -
    have "?xs = ?tw @ ?dw" by simp
    also have "\<dots> = replicate k False @ hd ?dw # tl ?dw" using dw tw by simp
    finally show ?thesis using hd by simp
  qed
  have "length ?xs \<le> 7" by simp
  moreover have "k < length ?xs" by (subst xs) simp
  ultimately have k7: "k < 7" by simp
  have "sc = ?xs @ drop 7 sc" by simp
  then have sc: "sc = replicate k False @ True # (tl ?dw @ drop 7 sc)"
    by (subst (asm) xs) simp
  have "drop (Suc k) sc = tl ?dw @ drop 7 sc"
    by (subst sc) (rule drop_after_failure)
  with sc k7 show ?thesis by simp
qed

lemma show_page_policy:
  assumes "p < 16" "p * 64 + 64 \<le> length buf"
  shows "show_page buf p s =
           (case retry_policy_page (addr s) buf p (schedule (i2c s)) of
              (r, evs, n) \<Rightarrow> (r, emit evs n s))"
proof (cases "first_failure (schedule (i2c s))")
  case None
  from show_page_ok[OF assms first_failure_None[OF None]] None
  show ?thesis by (simp add: retry_policy_page_def)
next
  case (Some k)
  let ?rest = "drop (Suc k) (schedule (i2c s))"
  from first_failure_Some[OF Some] have k: "k < 7"
    and sc: "schedule (i2c s) = replicate k False @ True # ?rest" by simp_all
  show ?thesis
  proof (cases "first_failure ?rest")
    case None
    from show_page_retry[OF assms k sc first_failure_None[OF None]] Some None
    show ?thesis by (simp add: retry_policy_page_def)
  next
    case (Some m)
    from first_failure_Some[OF Some] have m: "m < 7"
      and r: "?rest = replicate m False @ True # drop (Suc m) ?rest" by simp_all
    have sc2: "schedule (i2c s) = replicate k False @ True # replicate m False @ True # drop (Suc m) ?rest"
      using sc r by simp
    from show_page_fatal[OF assms k m sc2] \<open>first_failure (schedule (i2c s)) = Some k\<close> Some
    show ?thesis by (simp add: retry_policy_page_def)
  qed
qed

lemma show_pages_policy:
  assumes "\<forall>p\<in>set ps. p < 16" "1024 \<le> length buf"
  shows "for_each ps (show_page buf) s =
           (case retry_policy_pages (addr s) buf ps (schedule (i2c s)) of
              (r, evs, n) \<Rightarrow> (r, emit evs n s))"
  using assms(1)
proof (induction ps arbitrary: s)
  case Nil
  then show ?case by (simp add: emit_def)
next
  case (Cons p ps)
  have p: "p < 16" "p * 64 + 64 \<le> length buf" using Cons.prems assms(2) by auto
  obtain r evs n where pol: "retry_policy_page (addr s) buf p (schedule (i2c s)) = (r, evs, n)"
    by (metis prod_cases3)
  have sp: "show_page buf p s = (r, emit evs n s)"
    using show_page_policy[OF p, of s] pol by simp
  show ?case
  proof (cases r)
    case (Inl e)
    then show ?thesis using sp pol by simp
  next
    case (Inr u)
    have ih: "for_each ps (show_page buf) (emit evs n s) =
           (case retry_policy_pages (addr (emit evs n s)) buf ps (schedule (i2c (emit evs n s))) of
              (r, evs', n') \<Rightarrow> (r, emit evs' n' (emit evs n s)))"
      by (rule Cons.IH) (use Cons.prems in auto)
    show ?thesis using Inr sp pol ih by (auto split: prod.splits)
  qed
qed


lemma policy_outcome:
  assumes "\<exists>s'. case pol s' of (r, evs, k) \<Rightarrow> act = (r, s') \<and> Q s' evs k"
  shows "\<exists>s'. fst act = fst (pol s')"
proof -
  from assms obtain s' where h: "case pol s' of (r, evs, k) \<Rightarrow> act = (r, s') \<and> Q s' evs k" ..
  obtain r evs k where p: "pol s' = (r, evs, k)" by (metis prod_cases3)
  with h have "act = (r, s')" by simp
  with p show ?thesis by (intro exI[of _ s']) simp
qed

lemma two_pages_once_each:
  "fst (retry_policy_pages a buf [0..<16]
          [True, False, False, False, False, False, False, False, True]) = Inr ()"
  by (simp add: upt_rec retry_policy_page_def first_failure_def)

text \<open>
  Claim C4. For every driver state with well-formed buffers and every schedule of failing
  bus writes, \<^verbatim>\<open>show\<close> does what the retry policy says, page after page: a page whose
  first attempt fails is sent once more after 10 ms and the transfer goes on with the next
  page; the outcome is \<^verbatim>\<open>OSError\<close> exactly when the one retry of some page fails too, and
  then nothing more is written. Outcome, trace and the bus writes consumed are those of
  \<open>retry_policy_pages\<close> on the pages 0 to 15. In particular, when only write number \<open>n\<close>
  of the transfer fails, \<^verbatim>\<open>show\<close> succeeds and the trace holds the pages before, the failed
  attempt, one delay of 10 ms, the seven writes of that page once more and the remaining
  pages; when write number \<open>m\<close> of that retry fails as well, \<^verbatim>\<open>show\<close> ends with
  \<^verbatim>\<open>OSError\<close> right after it.
\<close>

theorem show_retry_policy:
  assumes "length (buffer s) = 1024"
    and "rotate s \<longrightarrow> (\<exists>pb. physical_buffer s = Some pb \<and> length pb = 1024)"
  shows "(\<exists>s'. case retry_policy_pages (addr s) (frame s') [0..<16] (schedule (i2c s)) of
                 (r, evs, k) \<Rightarrow>
                   show s = (r, s') \<and> trace (i2c s') = trace (i2c s) @ evs \<and>
                   schedule (i2c s') = drop k (schedule (i2c s))) \<and>
         (n < 112 \<and> schedule (i2c s) = replicate n False @ True # rest \<and> True \<notin> set rest \<longrightarrow>
            (\<exists>s'. show s = (Inr (), s') \<and>
               trace (i2c s') = trace (i2c s) @
                 concat (map (\<lambda>q. page_events (addr s) (frame s') q @ [SleepUs 100]) [0..<n div 7]) @
                 failed_page_events (addr s) (frame s') (n div 7) (n mod 7) @ [SleepMs 10] @
                 page_events (addr s) (frame s') (n div 7) @
                 concat (map (\<lambda>q. page_events (addr s) (frame s') q @ [SleepUs 100])
                           [Suc (n div 7)..<16]))) \<and>
         (n < 112 \<and> m < 7 \<and>
          schedule (i2c s) = replicate n False @ True # replicate m False @ True # rest \<longrightarrow>
            (\<exists>s'. show s = (Inl OSError, s') \<and>
               trace (i2c s') = trace (i2c s) @
                 concat (map (\<lambda>q. page_events (addr s) (frame s') q @ [SleepUs 100]) [0..<n div 7]) @
                 failed_page_events (addr s) (frame s') (n div 7) (n mod 7) @ [SleepMs 10] @
                 failed_page_events (addr s) (frame s') (n div 7) m))"
proof (intro conjI impI)
  from show_as_show_pages[OF assms] obtain t where
    t: "show s = show_pages (frame t) t" "length (frame t) = 1024" "i2c t = i2c s" "addr t = addr s"
    by blast
  obtain r evs k where
    pol: "retry_policy_pages (addr t) (frame t) [0..<16] (schedule (i2c t)) = (r, evs, k)"
    by (metis prod_cases3)
  have "show_pages (frame t) t = (r, emit evs k t)"
    unfolding show_pages_def using show_pages_policy[of "[0..<16]" "frame t" t] t(2) pol by simp
  then show "\<exists>s'. case retry_policy_pages (addr s) (frame s') [0..<16] (schedule (i2c s)) of
                 (r, evs, k) \<Rightarrow>
                   show s = (r, s') \<and> trace (i2c s') = trace (i2c s) @ evs \<and>
                   schedule (i2c s') = drop k (schedule (i2c s))"
    using t pol by (intro exI[of _ "emit evs k t"]) simp
next
  assume a: "n < 112 \<and> schedule (i2c s) = replicate n False @ True # rest \<and> True \<notin> set rest"
  then have n: "n < 112" by simp
  from show_one_page_failing[OF assms n, of rest] a
  show "\<exists>s'. show s = (Inr (), s') \<and>
               trace (i2c s') = trace (i2c s) @
                 concat (map (\<lambda>q. page_events (addr s) (frame s') q @ [SleepUs 100]) [0..<n div 7]) @
                 failed_page_events (addr s) (frame s') (n div 7) (n mod 7) @ [SleepMs 10] @
                 page_events (addr s) (frame s') (n div 7) @
                 concat (map (\<lambda>q. page_events (addr s) (frame s') q @ [SleepUs 100])
                           [Suc (n div 7)..<16])"
    by blast
next
  assume a: "n < 112 \<and> m < 7 \<and>
          schedule (i2c s) = replicate n False @ True # replicate m False @ True # rest"
  then have n: "n < 112" by simp
  from show_one_page_failing[OF assms n, of rest m] a
  show "\<exists>s'. show s = (Inl OSError, s') \<and>
               trace (i2c s') = trace (i2c s) @
                 concat (map (\<lambda>q. page_events (addr s) (frame s') q @ [SleepUs 100]) [0..<n div 7]) @
                 failed_page_events (addr s) (frame s') (n div 7) (n mod 7) @ [SleepMs 10] @
                 failed_page_events (addr s) (frame s') (n div 7) m"
    by blast
qed


theorem show_retry_policy_witness:
  "length (buffer ((landscape_state (replicate 1024 0))\<lparr>i2c := \<lparr>schedule = [True, False, False, False, False, False, False, False, True], trace = []\<rparr>\<rparr>)) = 1024 \<and>
   fst (show ((landscape_state (replicate 1024 0))\<lparr>i2c := \<lparr>schedule = [True, False, False, False, False, False, False, False, True], trace = []\<rparr>\<rparr>)) = Inr () \<and>
   (0::nat) < 112 \<and>
   schedule (i2c ((landscape_state (replicate 1024 0))\<lparr>i2c := \<lparr>schedule = [True], trace = []\<rparr>\<rparr>))
      = replicate 0 False @ True # [] \<and>
   True \<notin> set [] \<and>
   fst (show ((landscape_state (replicate 1024 0))\<lparr>i2c := \<lparr>schedule = [True], trace = []\<rparr>\<rparr>)) = Inr () \<and>
   (0::nat) < 7 \<and>
   schedule (i2c ((landscape_state (replicate 1024 0))\<lparr>i2c := \<lparr>schedule = [True, True], trace = []\<rparr>\<rparr>))
      = replicate 0 False @ True # replicate 0 False @ True # [] \<and>
   fst (show ((landscape_state (replicate 1024 0))\<lparr>i2c := \<lparr>schedule = [True, True], trace = []\<rparr>\<rparr>))
      = Inl OSError"
proof -
  let ?s0 = "(landscape_state (replicate 1024 0))\<lparr>i2c := \<lparr>schedule = [True, False, False, False, False, False, False, False, True], trace = []\<rparr>\<rparr>"
  let ?s1 = "(landscape_state (replicate 1024 0))\<lparr>i2c := \<lparr>schedule = [True], trace = []\<rparr>\<rparr>"
  let ?s2 = "(landscape_state (replicate 1024 0))\<lparr>i2c := \<lparr>schedule = [True, True], trace = []\<rparr>\<rparr>"
  have h0: "length (buffer ?s0) = 1024"
    "rotate ?s0 \<longrightarrow> (\<exists>pb. physical_buffer ?s0 = Some pb \<and> length pb = 1024)"
    "schedule (i2c ?s0) = [True, False, False, False, False, False, False, False, True]"
    by (simp_all add: landscape_state_def)
  have h1: "length (buffer ?s1) = 1024"
    "rotate ?s1 \<longrightarrow> (\<exists>pb. physical_buffer ?s1 = Some pb \<and> length pb = 1024)"
    "(0::nat) < 112 \<and> schedule (i2c ?s1) = replicate 0 False @ True # [] \<and> True \<notin> set []"
    by (simp_all add: landscape_state_def)
  have h2: "length (buffer ?s2) = 1024"
    "rotate ?s2 \<longrightarrow> (\<exists>pb. physical_buffer ?s2 = Some pb \<and> length pb = 1024)"
    "(0::nat) < 112 \<and> (0::nat) < 7 \<and>
       schedule (i2c ?s2) = replicate 0 False @ True # replicate 0 False @ True # []"
    by (simp_all add: landscape_state_def)
  have "\<exists>s'. fst (show ?s0)
           = fst (retry_policy_pages (addr ?s0) (frame s') [0..<16] (schedule (i2c ?s0)))"
    by (rule policy_outcome) (rule show_retry_policy[OF h0(1,2), THEN conjunct1])
  then have a: "fst (show ?s0) = Inr ()"
    unfolding h0(3) two_pages_once_each by simp
  from show_retry_policy[OF h1(1,2), where n=0 and rest="[]"] h1(3) have b: "fst (show ?s1) = Inr ()"
    by fastforce
  from show_retry_policy[OF h2(1,2), where n=0 and m=0 and rest="[]"] h2(3) have c: "fst (show ?s2) = Inl OSError"
    by fastforce
  from a b c h0(1) h1(3) h2(3) show ?thesis by simp
qed

text \<open>
  Claim C8, as amended. A transport error in one of the 21 command writes of the
  initialization sequence is fatal: construction ends with \<^verbatim>\<open>OSError\<close> right after the
  failed write, nothing is retried and nothing more is written. When the 21 command writes
  go through, the full-frame transfer that ends construction follows the retry policy of
  \<^verbatim>\<open>show\<close>, for every schedule of failing writes: each page whose first attempt fails is
  sent once more after 10 ms, and construction ends with \<^verbatim>\<open>OSError\<close> exactly when the
  retry of some page fails as well.
\<close>

theorem init_transport_errors:
  "(n < 21 \<and> schedule b = replicate n False @ True # rest \<longrightarrow>
      (\<exists>s'. init b a rot v = (Inl OSError, s') \<and>
         trace (i2c s') = trace b @ map (\<lambda>c. Write a [0x80, c]) (take n init_bytes) @
                          [WriteFailed a [0x80, init_bytes ! n]])) \<and>
   (True \<notin> set (take 21 (schedule b)) \<longrightarrow>
      (\<exists>s'. case retry_policy_pages a (frame s') [0..<16] (drop 21 (schedule b)) of
               (r, evs, k) \<Rightarrow>
                 init b a rot v = (r, s') \<and>
                 trace (i2c s') = trace b @ map (\<lambda>c. Write a [0x80, c]) init_bytes @ evs)) \<and>
   (n < 112 \<and> schedule b = replicate (21 + n) False @ True # rest \<and> True \<notin> set rest \<longrightarrow>
      (\<exists>s'. init b a rot v = (Inr (), s') \<and>
         trace (i2c s') = trace b @ map (\<lambda>c. Write a [0x80, c]) init_bytes @
           concat (map (\<lambda>q. page_events a (frame s') q @ [SleepUs 100]) [0..<n div 7]) @
           failed_page_events a (frame s') (n div 7) (n mod 7) @ [SleepMs 10] @
           page_events a (frame s') (n div 7) @
           concat (map (\<lambda>q. page_events a (frame s') q @ [SleepUs 100]) [Suc (n div 7)..<16]))) \<and>
   (n < 112 \<and> m < 7 \<and>
    schedule b = replicate (21 + n) False @ True # replicate m False @ True # rest \<longrightarrow>
      (\<exists>s'. init b a rot v = (Inl OSError, s') \<and>
         trace (i2c s') = trace b @ map (\<lambda>c. Write a [0x80, c]) init_bytes @
           concat (map (\<lambda>q. page_events a (frame s') q @ [SleepUs 100]) [0..<n div 7]) @
           failed_page_events a (frame s') (n div 7) (n mod 7) @ [SleepMs 10] @
           failed_page_events a (frame s') (n div 7) m))"
proof -
  have general: "\<exists>s'. case retry_policy_pages a (frame s') [0..<16] (drop 21 (schedule b)) of
               (r, evs, k) \<Rightarrow>
                 init b a rot v = (r, s') \<and>
                 trace (i2c s') = trace b @ map (\<lambda>c. Write a [0x80, c]) init_bytes @ evs"
    if ok21: "True \<notin> set (take 21 (schedule b))"
  proof -
    from init_reaches_show[OF ok21, of a rot v] obtain t where
      t: "init b a rot v = show_pages (frame t) t" "frame t = replicate 1024 0"
        "schedule (i2c t) = drop 21 (schedule b)"
        "trace (i2c t) = trace b @ map (\<lambda>c. Write a [0x80, c]) init_bytes"
        "addr t = a"
      by blast
    have len: "1024 \<le> length (frame t)" by (simp add: t(2))
    obtain r evs k where
      pol: "retry_policy_pages (addr t) (frame t) [0..<16] (schedule (i2c t)) = (r, evs, k)"
      by (metis prod_cases3)
    have "show_pages (frame t) t = (r, emit evs k t)"
      unfolding show_pages_def using show_pages_policy[of "[0..<16]" "frame t" t] len pol by simp
    then show ?thesis
      using t(1,3,4,5) pol by (intro exI[of _ "emit evs k t"]) simp
  qed
  from init_one_page_failing[of n b rest a rot v m] general show ?thesis by blast
qed

theorem init_transport_errors_witness:
  "((0::nat) < 21 \<and> schedule \<lparr>schedule = [True], trace = []\<rparr> = replicate 0 False @ True # []) \<and>
   fst (init \<lparr>schedule = [True], trace = []\<rparr> 0x3C True False) = Inl OSError \<and>
   True \<notin> set (take 21 (schedule \<lparr>schedule = replicate 21 False @ [True, False, False, False, False, False, False, False, True], trace = []\<rparr>)) \<and>
   fst (init \<lparr>schedule = replicate 21 False @ [True, False, False, False, False, False, False, False, True], trace = []\<rparr> 0x3C True False) = Inr () \<and>
   ((0::nat) < 112 \<and>
    schedule \<lparr>schedule = replicate 21 False @ [True], trace = []\<rparr> = replicate (21 + 0) False @ True # [] \<and>
    True \<notin> set []) \<and>
   fst (init \<lparr>schedule = replicate 21 False @ [True], trace = []\<rparr> 0x3C False False) = Inr () \<and>
   ((0::nat) < 112 \<and> (0::nat) < 7 \<and>
    schedule \<lparr>schedule = replicate 21 False @ [True, True], trace = []\<rparr>
      = replicate (21 + 0) False @ True # replicate 0 False @ True # []) \<and>
   fst (init \<lparr>schedule = replicate 21 False @ [True, True], trace = []\<rparr> 0x3C False False) = Inl OSError"
proof -
  let ?b0 = "\<lparr>schedule = replicate 21 False @ [True, False, False, False, False, False, False, False, True], trace = []\<rparr>"
  let ?b1 = "\<lparr>schedule = [True], trace = []\<rparr>"
  let ?b2 = "\<lparr>schedule = replicate 21 False @ [True], trace = []\<rparr>"
  let ?b3 = "\<lparr>schedule = replicate 21 False @ [True, True], trace = []\<rparr>"
  have h0: "True \<notin> set (take 21 (schedule ?b0))"
    "drop 21 (schedule ?b0) = [True, False, False, False, False, False, False, False, True]"
    by simp_all
  have h1: "(0::nat) < 21 \<and> schedule ?b1 = replicate 0 False @ True # []" by simp
  have h2: "(0::nat) < 112 \<and> schedule ?b2 = replicate (21 + 0) False @ True # [] \<and> True \<notin> set []"
    by simp
  have h3: "(0::nat) < 112 \<and> (0::nat) < 7 \<and>
    schedule ?b3 = replicate (21 + 0) False @ True # replicate 0 False @ True # []" by simp
  have "\<exists>s'. fst (init ?b0 0x3C True False)
           = fst (retry_policy_pages 0x3C (frame s') [0..<16] (drop 21 (schedule ?b0)))"
    by (rule policy_outcome)
       (rule init_transport_errors[where n=0 and b="?b0" and rest="[]" and a="0x3C" and rot=True and v=False and m=0, THEN conjunct2,
          THEN conjunct1, THEN mp, OF h0(1)])
  then have 0: "fst (init ?b0 0x3C True False) = Inr ()"
    unfolding h0(2) two_pages_once_each by simp
  from init_transport_errors[where n=0 and b="?b1" and rest="[]" and a="0x3C" and rot=True and v=False and m=0] h1
  have 1: "fst (init ?b1 0x3C True False) = Inl OSError" by fastforce
  from init_transport_errors[where n=0 and b="?b2" and rest="[]" and a="0x3C" and rot=False and v=False and m=0] h2
  have 2: "fst (init ?b2 0x3C False False) = Inr ()" by fastforce
  from init_transport_errors[where n=0 and b="?b3" and rest="[]" and a="0x3C" and rot=False and v=False and m=0] h3
  have 3: "fst (init ?b3 0x3C False False) = Inl OSError" by fastforce
  from 0 1 2 3 h0(1) h1 h2 h3 show ?thesis by blast
qed

section \<open>Drawing operations at their edge cases\<close>

lemma triangle_flat_top_calls:
  "triangle 0 0 4 0 0 4 1 True =
     [HLine 0 0 1 1, HLine 0 1 4 1, HLine 0 2 3 1, HLine 0 3 2 1, HLine 0 4 1 1]"
  by (simp add: triangle_def triangle_row_def upto.simps)

text \<open>
  Claim C3 fails on the code. A filled ellipse with vertical radius \<open>b = 0\<close> has one row,
  \<open>y = 0\<close>, and the half-width of that row divides by \<open>b * b = 0\<close>: the method raises
  \<^verbatim>\<open>ZeroDivisionError\<close> before it draws anything, for every centre, horizontal radius and
  colour, whatever the floating-point arithmetic is.
\<close>

theorem ellipse_fill_zero_height:
  "ellipse fl x0 y0 a 0 c True = Some ([], Inl ZeroDivisionError) \<and>
   apply_op lp fl (OpEllipse x0 y0 a 0 c True) s = Some (Inl ZeroDivisionError, s)"
  by (simp add: ellipse_def upto.simps draw_def)

lemma hline_row:
  "fb_fill_rect x y w 1 c s = fold (\<lambda>px. fb_setpixel px y c) [x..x + w - 1] s"
  by (simp add: fb_fill_rect_def rect_points_def upto.simps fold_map comp_def)


lemma setpixel_landscape:
  assumes "width s = 128" "height s = 64" "0 \<le> x" "x < 128" "0 \<le> y" "y < 8"
  shows "fb_setpixel x y 1 s = s\<lparr>buffer := (buffer s)[nat x := buffer s ! nat x OR push_bit (nat y) 1]\<rparr>"
  using assms by (simp add: fb_setpixel_def Let_def)

lemma flat_top_pixels:
  "\<not> fb_getpixel (draw lp [HLine 0 0 1 1, HLine 0 1 4 1, HLine 0 2 3 1, HLine 0 3 2 1, HLine 0 4 1 1]
            (landscape_state (replicate 1024 0))) 1 0"
  "\<not> fb_getpixel (draw lp [HLine 0 0 1 1, HLine 0 1 4 1, HLine 0 2 3 1, HLine 0 3 2 1, HLine 0 4 1 1]
            (landscape_state (replicate 1024 0))) 4 0"
  "fb_getpixel (draw lp [HLine 0 0 1 1, HLine 0 1 4 1, HLine 0 2 3 1, HLine 0 3 2 1, HLine 0 4 1 1]
            (landscape_state (replicate 1024 0))) 0 0"
  by (simp_all add: draw_def hline_row upto.simps setpixel_landscape landscape_state_def
        fb_getpixel_def nth_list_update)

text \<open>
  Claim C2 fails on the code. The filled triangle with vertices \<open>(0,0)\<close>, \<open>(4,0)\<close>, \<open>(0,4)\<close>
  has two vertices on its top row; for that row the method takes both ends of the span
  from the first vertex, so it draws the single pixel \<open>(0,0)\<close>. On a cleared landscape
  buffer the pixels \<open>(1,0)\<close> to \<open>(4,0)\<close>, which the claim counts among the set ones, stay
  clear.
\<close>

theorem triangle_fill_flat_top:
  "triangle 0 0 4 0 0 4 1 True =
     [HLine 0 0 1 1, HLine 0 1 4 1, HLine 0 2 3 1, HLine 0 3 2 1, HLine 0 4 1 1] \<and>
   (1, 0) \<notin> plotted (triangle 0 0 4 0 0 4 1 True) \<and>
   (4, 0) \<notin> plotted (triangle 0 0 4 0 0 4 1 True) \<and>
   fb_getpixel (draw lp (triangle 0 0 4 0 0 4 1 True) (landscape_state (replicate 1024 0))) 0 0 \<and>
   \<not> fb_getpixel (draw lp (triangle 0 0 4 0 0 4 1 True) (landscape_state (replicate 1024 0))) 1 0 \<and>
   \<not> fb_getpixel (draw lp (triangle 0 0 4 0 0 4 1 True) (landscape_state (replicate 1024 0))) 4 0"
  unfolding triangle_flat_top_calls
  using flat_top_pixels[of lp] by (simp add: plotted_def)

end
